theory Spec2Isabelle
  imports Main
begin

section \<open>Constants, errors and string views\<close>

text \<open>
  The file server of \<^verbatim>\<open>server.cpp\<close>: one coroutine (fiber) per connection, suspended at
  every io_uring operation and resumed by the event loop of \<^verbatim>\<open>main\<close> with the
  operation's result. Bytes are \<open>char\<close>, byte strings are \<open>string\<close>. File sizes and
  offsets (\<^verbatim>\<open>off_t\<close>) are \<open>int\<close>: the program only adds \<^verbatim>\<open>BUF_SIZE\<close> to an offset that is
  more than \<^verbatim>\<open>BUF_SIZE\<close> below the file size, so no 64-bit overflow can occur.
\<close>

definition BUF_SIZE :: int where
  "BUF_SIZE = 1024"

text \<open>\<^verbatim>\<open>iov_pool.size()\<close>: the number of registered buffers.\<close>

definition POOL_COUNT :: nat where
  "POOL_COUNT = 12"

text \<open>
  What can leave a fiber body as a C++ exception: \<^verbatim>\<open>panic\<close> throws
  \<^verbatim>\<open>std::system_error\<close> with the given text, \<^verbatim>\<open>string_view::substr\<close> and
  \<^verbatim>\<open>string_view::compare\<close> throw \<^verbatim>\<open>std::out_of_range\<close>. \<open>Dangling_fiber\<close> stands for
  the event loop dereferencing a completion tag that is no live fiber.
\<close>

datatype error = System_error string | Out_of_range | Dangling_fiber

definition panic :: "string \<Rightarrow> error" where
  "panic sv = System_error sv"

text \<open>\<^verbatim>\<open>std::string_view::npos\<close>, the largest \<^verbatim>\<open>size_t\<close>, and \<^verbatim>\<open>size_t\<close> subtraction.\<close>

definition npos :: nat where
  "npos = 2 ^ 64 - 1"

definition size_sub :: "nat \<Rightarrow> nat \<Rightarrow> nat" where
  "size_sub a b = (a + 2 ^ 64 - b) mod 2 ^ 64"

text \<open>Three-way comparison of character sequences, characters as unsigned bytes.\<close>

fun compare_chars :: "string \<Rightarrow> string \<Rightarrow> int" where
  "compare_chars [] [] = 0"
| "compare_chars [] (y # ys) = - 1"
| "compare_chars (x # xs) [] = 1"
| "compare_chars (x # xs) (y # ys) =
     (if x = y then compare_chars xs ys
      else if (of_char x :: nat) < of_char y then - 1 else 1)"

text \<open>\<^verbatim>\<open>v.compare(pos1, count1, s)\<close> is \<^verbatim>\<open>v.substr(pos1, count1).compare(s)\<close>.\<close>

definition sv_substr :: "string \<Rightarrow> nat \<Rightarrow> nat \<Rightarrow> error + string" where
  "sv_substr v pos count =
     (if pos > length v then Inl Out_of_range else Inr (take count (drop pos v)))"

definition sv_compare :: "string \<Rightarrow> nat \<Rightarrow> nat \<Rightarrow> string \<Rightarrow> error + int" where
  "sv_compare v pos1 count1 s =
     (case sv_substr v pos1 count1 of
        Inl e \<Rightarrow> Inl e
      | Inr sub \<Rightarrow> Inr (compare_chars sub s))"

text \<open>\<^verbatim>\<open>v.find(ch, pos)\<close>: the first index at or after \<open>pos\<close> holding \<open>ch\<close>, else \<open>npos\<close>.\<close>

primrec index_from :: "char \<Rightarrow> nat \<Rightarrow> string \<Rightarrow> nat option" where
  "index_from ch i [] = None"
| "index_from ch i (x # xs) = (if x = ch then Some i else index_from ch (Suc i) xs)"

definition sv_find :: "string \<Rightarrow> char \<Rightarrow> nat \<Rightarrow> nat" where
  "sv_find v ch pos =
     (case index_from ch pos (drop pos v) of None \<Rightarrow> npos | Some i \<Rightarrow> i)"

text \<open>\<^verbatim>\<open>std::string::c_str()\<close> read as a C string: it ends at the first NUL byte.\<close>

definition c_str :: "string \<Rightarrow> string" where
  "c_str s = takeWhile (\<lambda>c. c \<noteq> CHR 0x00) s"

section \<open>Response headers\<close>

definition CRLF :: string where
  "CRLF = [CHR 0x0D, CHR 0x0A]"

definition http_404_hdr :: string where
  "http_404_hdr = ''HTTP/1.1 404 Not Found'' @ CRLF @ ''Content-Length: 0'' @ CRLF @ CRLF"

definition http_400_hdr :: string where
  "http_400_hdr = ''HTTP/1.1 400 Bad Request'' @ CRLF @ ''Content-Length: 0'' @ CRLF @ CRLF"

text \<open>\<^verbatim>\<open>fmt::format("{}", n)\<close> for an integer: decimal digits, a minus sign when negative.\<close>

definition digit_char :: "nat \<Rightarrow> char" where
  "digit_char d = char_of (48 + d)"

function dec_nat :: "nat \<Rightarrow> string" where
  "dec_nat n = (if n < 10 then [digit_char n] else dec_nat (n div 10) @ [digit_char (n mod 10)])"
  by pat_completeness auto
termination
  by (relation "measure (\<lambda>n. n)") auto

declare dec_nat.simps [simp del]

definition format_int :: "int \<Rightarrow> string" where
  "format_int i = (if i < 0 then CHR ''-'' # dec_nat (nat (- i)) else dec_nat (nat i))"

text \<open>The header built at line 111 of \<^verbatim>\<open>server.cpp\<close>.\<close>

definition http_200_hdr :: "int \<Rightarrow> string" where
  "http_200_hdr st_size =
     ''HTTP/1.1 200 OK'' @ CRLF @ ''Content-type: text/plain'' @ CRLF @
     ''Content-Length: '' @ format_int st_size @ CRLF @ CRLF"

section \<open>The machine: files, descriptors, sockets, buffers and the ring\<close>

datatype inode = Regular string | Other_inode

datatype fdesc = File_desc inode | Socket_desc nat

text \<open>
  Memory an operation can point at: a slot of the registered pool (by index), an array on
  the stack of a fiber (by the fiber's address and the variable's name), or read-only
  bytes (a string constant or a temporary \<^verbatim>\<open>std::string\<close>) denoted by their content.
\<close>

datatype region = Pool_slot nat | Stack_array nat string | Literal string | Null_region

datatype opcode = READV | WRITEV | READ_FIXED | WRITE_FIXED

record sqe =
  sqe_opcode :: opcode
  sqe_fd :: int
  sqe_addr :: region
  sqe_len :: nat
  sqe_off :: int
  sqe_buf_index :: nat
  sqe_user_data :: nat

text \<open>
  \<open>sock_rx c\<close> lists the chunks connection \<open>c\<close> delivers, one per read; \<open>sock_tx c\<close> is
  what has been written to it. \<open>inflight\<close> holds the submitted operations that have not
  completed. \<open>open_log\<close> records every path handed to \<^verbatim>\<open>open\<close>. \<open>dead_bytes a name\<close>
  is what the storage of the stack array \<open>name\<close> of fiber \<open>a\<close> holds once the block that
  declares the array has ended: the language leaves these bytes open, and so does the
  model.
\<close>

record machine =
  filesystem :: "string \<Rightarrow> inode option"
  fdtab :: "(int \<times> fdesc) list"
  pool_mem :: "nat \<Rightarrow> string"
  stack_mem :: "nat \<Rightarrow> string \<Rightarrow> string"
  sock_rx :: "nat \<Rightarrow> string list"
  sock_tx :: "nat \<Rightarrow> string"
  inflight :: "sqe list"
  open_log :: "string list"
  dead_bytes :: "nat \<Rightarrow> string \<Rightarrow> string"

record stat =
  S_ISREG :: bool
  st_size :: int

text \<open>
  \<^verbatim>\<open>open(path, O_RDONLY)\<close>: \<open>- 1\<close> when the path names nothing, else a descriptor that is
  not in use (one above the largest open one; the program never depends on which).
\<close>

definition fresh_fd :: "(int \<times> fdesc) list \<Rightarrow> int" where
  "fresh_fd tab = fold (\<lambda>kv acc. max acc (fst kv + 1)) tab 0"

definition sys_open :: "string \<Rightarrow> machine \<Rightarrow> int \<times> machine" where
  "sys_open path m =
     (let m' = m\<lparr>open_log := open_log m @ [path]\<rparr> in
      case filesystem m path of
        None \<Rightarrow> (- 1, m')
      | Some ino \<Rightarrow>
          (let nfd = fresh_fd (fdtab m)
           in (nfd, m'\<lparr>fdtab := (nfd, File_desc ino) # fdtab m\<rparr>)))"

text \<open>\<^verbatim>\<open>fstat(fd, &st)\<close>: the return value and the stat buffer.\<close>

definition sys_fstat :: "int \<Rightarrow> machine \<Rightarrow> int \<times> stat" where
  "sys_fstat fd m =
     (case map_of (fdtab m) fd of
        None \<Rightarrow> (- 1, \<lparr>S_ISREG = False, st_size = 0\<rparr>)
      | Some (File_desc (Regular content)) \<Rightarrow>
          (0, \<lparr>S_ISREG = True, st_size = int (length content)\<rparr>)
      | Some (File_desc Other_inode) \<Rightarrow> (0, \<lparr>S_ISREG = False, st_size = 0\<rparr>)
      | Some (Socket_desc c) \<Rightarrow> (0, \<lparr>S_ISREG = False, st_size = 0\<rparr>))"

definition sys_close :: "int \<Rightarrow> machine \<Rightarrow> machine" where
  "sys_close fd m = m\<lparr>fdtab := filter (\<lambda>kv. fst kv \<noteq> fd) (fdtab m)\<rparr>"

definition load :: "machine \<Rightarrow> region \<Rightarrow> string" where
  "load m r =
     (case r of
        Pool_slot i \<Rightarrow> pool_mem m i
      | Stack_array a name \<Rightarrow> stack_mem m a name
      | Literal s \<Rightarrow> s
      | Null_region \<Rightarrow> [])"

text \<open>Writing \<open>d\<close> at the start of a region leaves the bytes behind it as they were.\<close>

definition store :: "region \<Rightarrow> string \<Rightarrow> machine \<Rightarrow> machine" where
  "store r d m =
     (case r of
        Pool_slot i \<Rightarrow> m\<lparr>pool_mem := (pool_mem m)(i := d @ drop (length d) (pool_mem m i))\<rparr>
      | Stack_array a name \<Rightarrow>
          m\<lparr>stack_mem := (stack_mem m)(a := (stack_mem m a)(name := d @ drop (length d) (stack_mem m a name)))\<rparr>
      | Literal s \<Rightarrow> m
      | Null_region \<Rightarrow> m)"

definition is_read :: "opcode \<Rightarrow> bool" where
  "is_read oc = (oc = READV \<or> oc = READ_FIXED)"

text \<open>
  The bytes an operation moves when it is carried out in full: a read takes up to
  \<open>sqe_len\<close> bytes of the file from \<open>sqe_off\<close>, or of the next chunk of the socket; a
  write takes \<open>sqe_len\<close> bytes of its memory to a socket. \<open>None\<close>: the descriptor does
  not support the operation.
\<close>

definition transfer_source :: "sqe \<Rightarrow> machine \<Rightarrow> string option" where
  "transfer_source q m =
     (case map_of (fdtab m) (sqe_fd q) of
        None \<Rightarrow> None
      | Some (File_desc (Regular content)) \<Rightarrow>
          (if is_read (sqe_opcode q)
           then Some (take (sqe_len q) (drop (nat (sqe_off q)) content)) else None)
      | Some (File_desc Other_inode) \<Rightarrow> None
      | Some (Socket_desc c) \<Rightarrow>
          (if is_read (sqe_opcode q)
           then (case sock_rx m c of [] \<Rightarrow> Some [] | chunk # rest \<Rightarrow> Some (take (sqe_len q) chunk))
           else Some (take (sqe_len q) (load m (sqe_addr q)))))"

definition full_result :: "sqe \<Rightarrow> machine \<Rightarrow> int" where
  "full_result q m = (case transfer_source q m of None \<Rightarrow> - 9 | Some d \<Rightarrow> int (length d))"

text \<open>
  The effect of an operation that completes with result \<open>res\<close>: nothing for
  \<open>res \<le> 0\<close>, else the first \<open>res\<close> bytes are moved.
\<close>

definition kernel_complete :: "sqe \<Rightarrow> int \<Rightarrow> machine \<Rightarrow> machine" where
  "kernel_complete q res m =
     (if res \<le> 0 then m
      else case transfer_source q m of
        None \<Rightarrow> m
      | Some src \<Rightarrow>
          (let d = take (nat res) src in
           case map_of (fdtab m) (sqe_fd q) of
             Some (Socket_desc c) \<Rightarrow>
               (if is_read (sqe_opcode q)
                then store (sqe_addr q) d
                       (m\<lparr>sock_rx := (sock_rx m)(c :=
                            (case sock_rx m c of [] \<Rightarrow> []
                             | chunk # rest \<Rightarrow>
                                 (if drop (length d) chunk = [] then rest
                                  else drop (length d) chunk # rest)))\<rparr>)
                else m\<lparr>sock_tx := (sock_tx m)(c := sock_tx m c @ d)\<rparr>)
           | _ \<Rightarrow> (if is_read (sqe_opcode q) then store (sqe_addr q) d m else m)))"

definition submit :: "sqe \<Rightarrow> machine \<Rightarrow> machine" where
  "submit q m = m\<lparr>inflight := inflight m @ [q]\<rparr>"

section \<open>Fibers and the awaited operations\<close>

text \<open>
  \<^verbatim>\<open>fiber_data\<close> without the ring pointer (there is one ring, the machine's). Pool
  pointers are slot indices; \<open>None\<close> is \<^verbatim>\<open>nullptr\<close>.
\<close>

record fiber_data =
  pool_start_ptr :: nat
  pool_ptr :: "nat option"
  clientfd :: int

text \<open>A fiber as its body sees it: its own address (the completion tag) and its data.\<close>

record fiber =
  self :: nat
  localData :: fiber_data

text \<open>
  Modelled from the spec: the \<^verbatim>\<open>Fiber\<close> class of \<^verbatim>\<open>yield.hpp\<close>, which is not among the
  sources. A body runs until it returns, throws or calls \<^verbatim>\<open>yield()\<close>; a suspended body
  continues when \<^verbatim>\<open>next(v)\<close> injects the value \<open>v\<close>, which the body reads with
  \<^verbatim>\<open>current()\<close>. An exception that leaves the body leaves \<^verbatim>\<open>next\<close>.
\<close>

datatype outcome =
    Finished machine
  | Thrown error machine
  | Yielded machine "int \<Rightarrow> machine \<Rightarrow> outcome"

text \<open>Lines 51--53 and 70--72: the result check shared by the four operations.\<close>

definition await_result :: "string \<Rightarrow> (int \<Rightarrow> machine \<Rightarrow> outcome) \<Rightarrow> int \<Rightarrow> machine \<Rightarrow> outcome" where
  "await_result operation k res m = (if res \<le> 0 then Thrown (panic operation) m else k res m)"

text \<open>
  \<^verbatim>\<open>DEFINE_URING_OP\<close>, for the one-element vectors the program passes. The program
  submits every entry before it asks for the next one, so \<^verbatim>\<open>io_uring_get_sqe\<close> always
  has an entry to give.
\<close>

definition prep_op :: "opcode \<Rightarrow> fiber \<Rightarrow> int \<Rightarrow> region \<times> nat \<Rightarrow> int \<Rightarrow> sqe" where
  "prep_op oc fiber fd iov offset =
     \<lparr>sqe_opcode = oc, sqe_fd = fd, sqe_addr = fst iov, sqe_len = snd iov,
      sqe_off = offset, sqe_buf_index = 0, sqe_user_data = self fiber\<rparr>"

definition uring_op :: "opcode \<Rightarrow> string \<Rightarrow> fiber \<Rightarrow> int \<Rightarrow> region \<times> nat \<Rightarrow> int \<Rightarrow>
    (int \<Rightarrow> machine \<Rightarrow> outcome) \<Rightarrow> machine \<Rightarrow> outcome" where
  "uring_op oc operation fiber fd iov offset k m =
     Yielded (submit (prep_op oc fiber fd iov offset) m) (await_result operation k)"

definition await_readv :: "fiber \<Rightarrow> int \<Rightarrow> region \<times> nat \<Rightarrow> int \<Rightarrow>
    (int \<Rightarrow> machine \<Rightarrow> outcome) \<Rightarrow> machine \<Rightarrow> outcome" where
  "await_readv = uring_op READV ''readv''"

definition await_writev :: "fiber \<Rightarrow> int \<Rightarrow> region \<times> nat \<Rightarrow> int \<Rightarrow>
    (int \<Rightarrow> machine \<Rightarrow> outcome) \<Rightarrow> machine \<Rightarrow> outcome" where
  "await_writev = uring_op WRITEV ''writev''"

text \<open>
  \<^verbatim>\<open>DEFINE_URING_FIXED_OP\<close>: the buffer is the fiber's pool slot, \<open>nbyte = 0\<close> asks for
  the whole slot, the length is cut to 32 bits and the slot index to 16.
\<close>

definition prep_fixed_op :: "opcode \<Rightarrow> fiber \<Rightarrow> int \<Rightarrow> nat \<Rightarrow> int \<Rightarrow> sqe" where
  "prep_fixed_op oc fiber fd nbyte offset =
     (let pool = pool_ptr (localData fiber);
          nbyte' = (if nbyte = 0 then nat BUF_SIZE else nbyte)
      in \<lparr>sqe_opcode = oc, sqe_fd = fd,
          sqe_addr = (case pool of None \<Rightarrow> Null_region | Some i \<Rightarrow> Pool_slot i),
          sqe_len = nbyte' mod 2 ^ 32, sqe_off = offset,
          sqe_buf_index =
            (case pool of None \<Rightarrow> 0
             | Some i \<Rightarrow> (i - pool_start_ptr (localData fiber)) mod 2 ^ 16),
          sqe_user_data = self fiber\<rparr>)"

definition uring_fixed_op :: "opcode \<Rightarrow> string \<Rightarrow> fiber \<Rightarrow> int \<Rightarrow> nat \<Rightarrow> int \<Rightarrow>
    (int \<Rightarrow> machine \<Rightarrow> outcome) \<Rightarrow> machine \<Rightarrow> outcome" where
  "uring_fixed_op oc operation fiber fd nbyte offset k m =
     Yielded (submit (prep_fixed_op oc fiber fd nbyte offset) m) (await_result operation k)"

definition await_read_fixed :: "fiber \<Rightarrow> int \<Rightarrow> nat \<Rightarrow> int \<Rightarrow>
    (int \<Rightarrow> machine \<Rightarrow> outcome) \<Rightarrow> machine \<Rightarrow> outcome" where
  "await_read_fixed = uring_fixed_op READ_FIXED ''read_fixed''"

definition await_write_fixed :: "fiber \<Rightarrow> int \<Rightarrow> nat \<Rightarrow> int \<Rightarrow>
    (int \<Rightarrow> machine \<Rightarrow> outcome) \<Rightarrow> machine \<Rightarrow> outcome" where
  "await_write_fixed = uring_fixed_op WRITE_FIXED ''write_fixed''"

text \<open>\<^verbatim>\<open>to_iov\<close> for a string view and for a \<^verbatim>\<open>BUF_SIZE\<close> array.\<close>

definition to_iov_sv :: "string \<Rightarrow> region \<times> nat" where
  "to_iov_sv sv = (Literal sv, length sv)"

definition to_iov_array :: "region \<Rightarrow> region \<times> nat" where
  "to_iov_array r = (r, nat BUF_SIZE)"

section \<open>Sending a file\<close>

text \<open>
  The \<^verbatim>\<open>for\<close> statements of lines 116--119 and 128--131; \<open>k\<close> continues with the final
  offset.
\<close>

function send_loop_fixed :: "fiber \<Rightarrow> int \<Rightarrow> int \<Rightarrow> int \<Rightarrow> int \<Rightarrow>
    (int \<Rightarrow> machine \<Rightarrow> outcome) \<Rightarrow> machine \<Rightarrow> outcome" where
  "send_loop_fixed fiber infd sockfd stsize offset k m =
     (if stsize - offset > BUF_SIZE then
        await_read_fixed fiber infd (nat BUF_SIZE) offset (\<lambda>r1 m1.
        await_write_fixed fiber sockfd (nat BUF_SIZE) 0 (\<lambda>r2 m2.
        send_loop_fixed fiber infd sockfd stsize (offset + BUF_SIZE) k m2) m1) m
      else k offset m)"
  by pat_completeness auto
termination
  by (relation "measure (\<lambda>(fiber, infd, sockfd, stsize, offset, k, m). nat (stsize - offset))")
     (auto simp: BUF_SIZE_def)

function send_loop_iov :: "fiber \<Rightarrow> int \<Rightarrow> int \<Rightarrow> region \<times> nat \<Rightarrow> int \<Rightarrow> int \<Rightarrow>
    (int \<Rightarrow> machine \<Rightarrow> outcome) \<Rightarrow> machine \<Rightarrow> outcome" where
  "send_loop_iov fiber infd sockfd iov stsize offset k m =
     (if stsize - offset > BUF_SIZE then
        await_readv fiber infd iov offset (\<lambda>r1 m1.
        await_writev fiber sockfd iov 0 (\<lambda>r2 m2.
        send_loop_iov fiber infd sockfd iov stsize (offset + BUF_SIZE) k m2) m1) m
      else k offset m)"
  by pat_completeness auto
termination
  by (relation "measure (\<lambda>(fiber, infd, sockfd, iov, stsize, offset, k, m). nat (stsize - offset))")
     (auto simp: BUF_SIZE_def)

declare send_loop_fixed.simps [simp del] send_loop_iov.simps [simp del]

definition http_send_file :: "fiber \<Rightarrow> string \<Rightarrow> machine \<Rightarrow> outcome" where
  "http_send_file fiber filename m0 =
     (let sockfd = clientfd (localData fiber);
          (infd, m) = sys_open (c_str filename) m0;
          (r, st) = sys_fstat infd m
      in if infd < 0 \<or> r < 0 \<or> \<not> S_ISREG st then
           await_writev fiber sockfd (to_iov_sv http_404_hdr) 0
             (\<lambda>_ m'. Finished (sys_close infd m')) m
         else
           await_writev fiber sockfd (to_iov_sv (http_200_hdr (st_size st))) 0 (\<lambda>_ m1.
             if pool_ptr (localData fiber) \<noteq> None then
               send_loop_fixed fiber infd sockfd (st_size st) 0 (\<lambda>offset m2.
                 if st_size st > offset then
                   await_read_fixed fiber infd (nat (st_size st - offset)) offset (\<lambda>_ m3.
                   await_write_fixed fiber sockfd (nat (st_size st - offset)) 0
                     (\<lambda>_ m4. Finished (sys_close infd m4)) m3) m2
                 else Finished (sys_close infd m2)) m1
             else
               (let filebuf = Stack_array (self fiber) ''filebuf'';
                    iov = to_iov_array filebuf
                in send_loop_iov fiber infd sockfd iov (st_size st) 0 (\<lambda>offset m2.
                     if st_size st > offset then
                       (let iov' = (fst iov, nat (st_size st - offset)) in
                        await_readv fiber infd iov' offset (\<lambda>_ m3.
                        await_writev fiber sockfd iov' 0
                          (\<lambda>_ m4. Finished (sys_close infd m4)) m3) m2)
                     else Finished (sys_close infd m2)) m1)) m)"

section \<open>Parsing the request\<close>

text \<open>
  Lines 160--170 of \<^verbatim>\<open>serve\<close>: what is done with the chunk the first read returned.
  The log lines printed with \<^verbatim>\<open>fmt::print\<close>, here and in \<^verbatim>\<open>http_send_file\<close>, are left out.
\<close>

definition serve_request :: "fiber \<Rightarrow> string \<Rightarrow> machine \<Rightarrow> outcome" where
  "serve_request fiber buf_view m =
     (let sockfd = clientfd (localData fiber) in
      case sv_compare buf_view 0 3 ''GET'' of
        Inl e \<Rightarrow> Thrown e m
      | Inr c \<Rightarrow>
          if c = 0 then
            (case sv_substr buf_view 4 (size_sub (sv_find buf_view CHR '' '' 4) 4) of
               Inl e \<Rightarrow> Thrown e m
             | Inr file \<Rightarrow> http_send_file fiber file m)
          else await_writev fiber sockfd (to_iov_sv http_400_hdr) 0 (\<lambda>_ m'. Finished m') m)"

text \<open>
  What a view reads that still points into an array whose block has ended: the bytes the
  array's storage holds by then.
\<close>

definition dangling :: "machine \<Rightarrow> region \<Rightarrow> string" where
  "dangling m r =
     (case r of
        Stack_array a name \<Rightarrow> dead_bytes m a name
      | _ \<Rightarrow> load m r)"

text \<open>
  Lines 144--158: the first read, into the pool slot or into a stack array. The array
  \<^verbatim>\<open>buffer\<close> is declared inside the \<^verbatim>\<open>else\<close> block (line 155) and its life ends with the
  block (line 158), while \<^verbatim>\<open>buf_view\<close> is declared before the \<^verbatim>\<open>if\<close> and used after it
  (lines 161--163): in the branch without a pool slot the view read there is dangling. The
  pool slot of the other branch lives on.
\<close>

definition serve :: "fiber \<Rightarrow> machine \<Rightarrow> outcome" where
  "serve fiber m =
     (let sockfd = clientfd (localData fiber) in
      case pool_ptr (localData fiber) of
        Some p \<Rightarrow>
          await_read_fixed fiber sockfd 0 0
            (\<lambda>res m'. serve_request fiber (take (nat res) (load m' (Pool_slot p))) m') m
      | None \<Rightarrow>
          (let buffer = Stack_array (self fiber) ''buffer'' in
           await_readv fiber sockfd (to_iov_array buffer) 0
             (\<lambda>res m'. serve_request fiber (take (nat res) (dangling m' buffer)) m') m))"

section \<open>Driving one fiber with operations that complete in full\<close>

text \<open>The first operation in flight that carries the tag, and the others.\<close>

fun take_pending :: "nat \<Rightarrow> sqe list \<Rightarrow> (sqe \<times> sqe list) option" where
  "take_pending tag [] = None"
| "take_pending tag (q # qs) =
     (if sqe_user_data q = tag then Some (q, qs)
      else (case take_pending tag qs of None \<Rightarrow> None | Some (p, rest) \<Rightarrow> Some (p, q # rest)))"

text \<open>
  Each time the fiber is suspended, its operation completes in full and the fiber is
  resumed with that result. The run yields the operations in the order they completed
  and how the fiber ended; it stops at a suspended fiber that has no operation in flight.
\<close>

primrec run :: "nat \<Rightarrow> outcome \<Rightarrow> sqe list \<times> outcome" where
  "run tag (Finished m) = ([], Finished m)"
| "run tag (Thrown e m) = ([], Thrown e m)"
| "run tag (Yielded m k) =
     (case take_pending tag (inflight m) of
        None \<Rightarrow> ([], Yielded m k)
      | Some (q, rest) \<Rightarrow>
          (let res = full_result q m;
               m' = kernel_complete q res (m\<lparr>inflight := rest\<rparr>)
           in case run tag (k res m') of (ops, fin) \<Rightarrow> (q # ops, fin)))"

section \<open>The event loop of main\<close>

text \<open>A live \<^verbatim>\<open>Fiber\<close> object on the heap: its data and where its body is suspended.\<close>

record fiber_obj =
  fo_data :: fiber_data
  fo_resume :: "int \<Rightarrow> machine \<Rightarrow> outcome"

text \<open>
  \<open>heap_next\<close> is the address \<^verbatim>\<open>new Fiber\<close> returns next: an address that no live fiber
  has.
\<close>

record loop_state =
  mach :: machine
  available_buffers :: "nat set"
  fibers :: "nat \<Rightarrow> fiber_obj option"
  heap_next :: nat

text \<open>
  What one turn of \<^verbatim>\<open>for (;;)\<close> meets: \<^verbatim>\<open>accept\<close> returning a descriptor for a new
  connection, or \<^verbatim>\<open>accept\<close> failing and \<^verbatim>\<open>io_uring_peek_cqe\<close> returning a completion
  (its tag and result), no completion, or an error.
\<close>

datatype event =
    Connection nat
  | Completion "nat option" int
  | No_completion
  | Peek_failure

definition sys_accept :: "nat \<Rightarrow> machine \<Rightarrow> int \<times> machine" where
  "sys_accept c m =
     (let nfd = fresh_fd (fdtab m) in (nfd, m\<lparr>fdtab := (nfd, Socket_desc c) # fdtab m\<rparr>))"

text \<open>Lines 183--186: every slot of the pool starts in the set.\<close>

definition initial_state :: "machine \<Rightarrow> loop_state" where
  "initial_state m =
     \<lparr>mach = m, available_buffers = fold insert [0..<POOL_COUNT] {},
      fibers = (\<lambda>a. None), heap_next = 0\<rparr>"

text \<open>Lines 209--217.\<close>

definition cleanFiber :: "nat \<Rightarrow> fiber_data \<Rightarrow> loop_state \<Rightarrow> loop_state" where
  "cleanFiber a d st =
     st\<lparr>mach := sys_close (clientfd d) (mach st),
        available_buffers :=
          (case pool_ptr d of
             None \<Rightarrow> available_buffers st
           | Some p \<Rightarrow> insert p (available_buffers st)),
        fibers := (fibers st)(a := None)\<rparr>"

text \<open>Lines 230--235: the pool pointer of a new connection and the set left.\<close>

definition acquire_buffer :: "nat set \<Rightarrow> nat option \<times> nat set" where
  "acquire_buffer avail =
     (if avail \<noteq> {} then
        (let first_buf = Min avail in (Some first_buf, avail - {first_buf}))
      else (None, avail))"

text \<open>
  \<^verbatim>\<open>if (!fiber->next(...)) cleanFiber(fiber)\<close>: a suspended fiber stays on the heap and a
  finished one is cleaned up. An exception that leaves the body leaves \<^verbatim>\<open>next\<close> (the
  spec's account of \<^verbatim>\<open>Fiber\<close>) and then \<^verbatim>\<open>main\<close>, which catches nothing: the process
  ends.
\<close>

definition after_next :: "nat \<Rightarrow> fiber_data \<Rightarrow> outcome \<Rightarrow> loop_state \<Rightarrow> error + loop_state" where
  "after_next a d out st =
     (case out of
        Yielded m k \<Rightarrow>
          Inr (st\<lparr>mach := m, fibers := (fibers st)(a \<mapsto> \<lparr>fo_data = d, fo_resume = k\<rparr>)\<rparr>)
      | Finished m \<Rightarrow> Inr (cleanFiber a d (st\<lparr>mach := m\<rparr>))
      | Thrown e m \<Rightarrow> Inl e)"

text \<open>
  Lines 218--249. A completion carries the tag and the result the kernel gave the
  operation; the effect of the operation with that tag on memory and sockets is applied
  when the completion is reaped, before the fiber is resumed. The loop trusts the tag:
  it resumes the fiber at that address with the result, whatever is in flight.
\<close>

definition loop_step :: "event \<Rightarrow> loop_state \<Rightarrow> error + loop_state" where
  "loop_step ev st =
     (case ev of
        Connection c \<Rightarrow>
          (let (newfd, m) = sys_accept c (mach st);
               a = heap_next st;
               (pool, avail) = acquire_buffer (available_buffers st);
               d = \<lparr>pool_start_ptr = 0, pool_ptr = pool, clientfd = newfd\<rparr>;
               st1 = st\<lparr>available_buffers := avail, heap_next := Suc a\<rparr>
           in after_next a d (serve \<lparr>self = a, localData = d\<rparr> m) st1)
      | Completion tag res \<Rightarrow>
          (case tag of
             None \<Rightarrow> Inr st
           | Some a \<Rightarrow>
               (case fibers st a of
                  None \<Rightarrow> Inl Dangling_fiber
                | Some fo \<Rightarrow>
                    (let m = (case take_pending a (inflight (mach st)) of
                                None \<Rightarrow> mach st
                              | Some (q, rest) \<Rightarrow>
                                  kernel_complete q res ((mach st)\<lparr>inflight := rest\<rparr>))
                     in after_next a (fo_data fo) (fo_resume fo res m) st)))
      | No_completion \<Rightarrow> Inr st
      | Peek_failure \<Rightarrow> Inl (panic ''peek_cqe''))"

text \<open>The states the loop can be in, started on machine \<open>m0\<close>.\<close>

inductive reachable :: "machine \<Rightarrow> loop_state \<Rightarrow> bool" for m0 :: machine where
  reachable_init: "reachable m0 (initial_state m0)"
| reachable_step: "reachable m0 st \<Longrightarrow> loop_step ev st = Inr st' \<Longrightarrow> reachable m0 st'"

text \<open>The slots leased to live fibers, in the order of the fibers' addresses.\<close>

definition leases :: "loop_state \<Rightarrow> nat list" where
  "leases st =
     List.map_filter
       (\<lambda>a. case fibers st a of None \<Rightarrow> None | Some fo \<Rightarrow> pool_ptr (fo_data fo))
       [0..<heap_next st]"


text \<open>\<^verbatim>\<open>next(v)\<close> on a fiber: a suspended body continues with \<open>v\<close> on the machine as it then is.\<close>

fun resume_with :: "outcome \<Rightarrow> int \<Rightarrow> machine \<Rightarrow> outcome" where
  "resume_with (Yielded m k) v m' = k v m'"
| "resume_with (Finished m) v m' = Finished m"
| "resume_with (Thrown e m) v m' = Thrown e m"

section \<open>Auxiliary notions for the statements\<close>

text \<open>Connection \<open>c\<close> has been sent \<open>d\<close> more.\<close>

definition tx_append :: "nat \<Rightarrow> string \<Rightarrow> machine \<Rightarrow> machine" where
  "tx_append c d m = m\<lparr>sock_tx := (sock_tx m)(c := sock_tx m c @ d)\<rparr>"

text \<open>One more completed operation in front of the rest of a run.\<close>

definition prepend :: "sqe list \<Rightarrow> sqe list \<times> outcome \<Rightarrow> sqe list \<times> outcome" where
  "prepend qs r = (qs @ fst r, snd r)"

text \<open>
  The spec's words for the target of a request: the bytes from index 4 up to the next
  space (all of the rest when there is none).
\<close>

definition request_target :: "string \<Rightarrow> string" where
  "request_target chunk = takeWhile (\<lambda>x. x \<noteq> CHR '' '') (drop 4 chunk)"



text \<open>
  The offsets at which the body of the loop \<^verbatim>\<open>for (; st.st_size - offset > BUF_SIZE;
  offset += BUF_SIZE)\<close> runs, and the offset at which the loop is left.
\<close>

function loop_offsets :: "int \<Rightarrow> int \<Rightarrow> int list" where
  "loop_offsets stsize offset =
     (if stsize - offset > BUF_SIZE then offset # loop_offsets stsize (offset + BUF_SIZE) else [])"
  by pat_completeness auto
termination
  by (relation "measure (\<lambda>(stsize, offset). nat (stsize - offset))") (auto simp: BUF_SIZE_def)

declare loop_offsets.simps [simp del]

definition loop_exit :: "int \<Rightarrow> int \<Rightarrow> int" where
  "loop_exit stsize offset = offset + BUF_SIZE * int (length (loop_offsets stsize offset))"

text \<open>
  One read-then-write cycle as it appears among the completed operations: \<open>n\<close> bytes of
  the file at \<open>offset\<close> into the fiber's buffer, then \<open>n\<close> bytes of the buffer to the socket.
\<close>

definition cycle_ops :: "fiber \<Rightarrow> int \<Rightarrow> int \<Rightarrow> nat \<Rightarrow> int \<Rightarrow> sqe list" where
  "cycle_ops fiber infd sockfd n offset =
     (case pool_ptr (localData fiber) of
        Some p \<Rightarrow>
          [prep_fixed_op READ_FIXED fiber infd n offset,
           prep_fixed_op WRITE_FIXED fiber sockfd n 0]
      | None \<Rightarrow>
          [prep_op READV fiber infd (Stack_array (self fiber) ''filebuf'', n) offset,
           prep_op WRITEV fiber sockfd (Stack_array (self fiber) ''filebuf'', n) 0])"

text \<open>
  The operations of a 200 response for a file of \<open>stsize\<close> bytes read through \<open>infd\<close>:
  the header, one cycle of \<^verbatim>\<open>BUF_SIZE\<close> bytes per turn of the loop, and a last cycle for
  what is left when the loop ends before the end of the file.
\<close>

definition file_ops :: "fiber \<Rightarrow> int \<Rightarrow> int \<Rightarrow> sqe list" where
  "file_ops fiber infd stsize =
     (let sockfd = clientfd (localData fiber); e = loop_exit stsize 0 in
      prep_op WRITEV fiber sockfd (to_iov_sv (http_200_hdr stsize)) 0 #
      concat (map (cycle_ops fiber infd sockfd (nat BUF_SIZE)) (loop_offsets stsize 0)) @
      (if stsize > e then cycle_ops fiber infd sockfd (nat (stsize - e)) e else []))"

text \<open>The first operation of \<^verbatim>\<open>serve\<close>: the read of the request.\<close>

definition first_read :: "fiber \<Rightarrow> sqe" where
  "first_read fiber =
     (case pool_ptr (localData fiber) of
        Some p \<Rightarrow> prep_fixed_op READ_FIXED fiber (clientfd (localData fiber)) 0 0
      | None \<Rightarrow>
          prep_op READV fiber (clientfd (localData fiber))
            (to_iov_array (Stack_array (self fiber) ''buffer'')) 0)"

text \<open>The machine an outcome carries.\<close>

fun machine_of :: "outcome \<Rightarrow> machine" where
  "machine_of (Finished m) = m"
| "machine_of (Thrown e m) = m"
| "machine_of (Yielded m k) = m"

text \<open>
  The bookkeeping of the pool, fiber by fiber: live fibers have addresses below
  \<open>heap_next\<close>, they hold slots of the pool, no two of them hold the same slot, and the
  free slots are the slots of the pool that no live fiber holds.
\<close>

definition pool_inv :: "loop_state \<Rightarrow> bool" where
  "pool_inv st \<longleftrightarrow>
     (\<forall>a fo. fibers st a = Some fo \<longrightarrow> a < heap_next st) \<and>
     (\<forall>a fo p. fibers st a = Some fo \<and> pool_ptr (fo_data fo) = Some p \<longrightarrow> p < POOL_COUNT) \<and>
     (\<forall>a b fa fb p. fibers st a = Some fa \<and> fibers st b = Some fb \<and>
        pool_ptr (fo_data fa) = Some p \<and> pool_ptr (fo_data fb) = Some p \<longrightarrow> a = b) \<and>
     (\<forall>p. p \<in> available_buffers st \<longleftrightarrow>
        p < POOL_COUNT \<and> (\<forall>a fo. fibers st a = Some fo \<longrightarrow> pool_ptr (fo_data fo) \<noteq> Some p))"

section \<open>Example inputs\<close>

definition example_fs :: "string \<Rightarrow> inode option" where
  "example_fs path =
     (if path = ''/f'' then Some (Regular ''hello'')
      else if path = ''/dir'' then Some Other_inode
      else if path = ''/empty'' then Some (Regular [])
      else if path = ''/2k'' then Some (Regular (replicate 2048 CHR ''a''))
      else None)"

text \<open>
  A machine with one connection, number 0 on descriptor 5, that delivers \<open>chunk\<close>. The
  storage of a dead stack array holds \<open>GET\<close>, a space and 1020 NUL bytes.
\<close>

definition example_machine :: "string \<Rightarrow> machine" where
  "example_machine chunk =
     \<lparr>filesystem = example_fs, fdtab = [(5, Socket_desc 0)],
      pool_mem = (\<lambda>i. []), stack_mem = (\<lambda>a name. []),
      sock_rx = (\<lambda>c. [chunk]), sock_tx = (\<lambda>c. []),
      inflight = [], open_log = [],
      dead_bytes = (\<lambda>a name. ''GET '' @ replicate 1020 (CHR 0x00))\<rparr>"

definition example_fiber :: "nat option \<Rightarrow> fiber" where
  "example_fiber pool =
     \<lparr>self = 7, localData = \<lparr>pool_start_ptr = 0, pool_ptr = pool, clientfd = 5\<rparr>\<rparr>"

section \<open>Facts about the model\<close>

subsection \<open>Runs of one fiber\<close>

lemma take_pending_append:
  "take_pending tag qs = None \<Longrightarrow> sqe_user_data q = tag \<Longrightarrow> take_pending tag (qs @ [q]) = Some (q, qs)"
  by (induction qs) (auto split: option.splits if_splits)

lemma load_inflight [simp]: "load (m\<lparr>inflight := x\<rparr>) r = load m r"
  by (cases r) (simp_all add: load_def)

lemma transfer_source_inflight [simp]:
  "transfer_source q (m\<lparr>inflight := x\<rparr>) = transfer_source q m"
  by (simp add: transfer_source_def split: option.split fdesc.split inode.split)

lemma store_inflight:
  "store r d (m\<lparr>inflight := x\<rparr>) = (store r d m)\<lparr>inflight := x\<rparr>"
  by (simp add: store_def split: region.split)

lemma kernel_complete_inflight:
  "kernel_complete q res (m\<lparr>inflight := x\<rparr>) = (kernel_complete q res m)\<lparr>inflight := x\<rparr>"
  by (cases "sqe_addr q")
     (simp_all add: kernel_complete_def store_def Let_def split: option.split fdesc.split list.split)

lemma full_result_inflight [simp]:
  "full_result q (m\<lparr>inflight := x\<rparr>) = full_result q m"
  by (simp add: full_result_def)

lemma prepend_Nil [simp]: "prepend [] r = r"
  by (simp add: prepend_def)

lemma prepend_prepend [simp]: "prepend xs (prepend ys r) = prepend (xs @ ys) r"
  by (simp add: prepend_def)

lemma run_yield_submit:
  assumes "take_pending tag (inflight m) = None" and "sqe_user_data q = tag"
  shows "run tag (Yielded (submit q m) r) =
           prepend [q] (run tag (r (full_result q m) (kernel_complete q (full_result q m) m)))"
proof -
  have "take_pending tag (inflight (submit q m)) = Some (q, inflight m)"
    using assms by (simp add: submit_def take_pending_append)
  moreover have "full_result q (submit q m) = full_result q m"
    by (simp add: submit_def)
  moreover have "kernel_complete q res ((submit q m)\<lparr>inflight := inflight m\<rparr>) = kernel_complete q res m" for res
    by (simp add: submit_def)
  ultimately show ?thesis
    by (simp add: prepend_def Let_def split: prod.split)
qed

lemma run_await_result_positive:
  "0 < res \<Longrightarrow> run tag (await_result name k res m) = run tag (k res m)"
  by (simp add: await_result_def)

lemma transfer_source_write_socket:
  "map_of (fdtab m) (sqe_fd q) = Some (Socket_desc c) \<Longrightarrow> \<not> is_read (sqe_opcode q) \<Longrightarrow>
   transfer_source q m = Some (take (sqe_len q) (load m (sqe_addr q)))"
  by (simp add: transfer_source_def)

lemma transfer_source_read_file:
  "map_of (fdtab m) (sqe_fd q) = Some (File_desc (Regular content)) \<Longrightarrow> is_read (sqe_opcode q) \<Longrightarrow>
   transfer_source q m = Some (take (sqe_len q) (drop (nat (sqe_off q)) content))"
  by (simp add: transfer_source_def)

lemma transfer_source_read_socket:
  "map_of (fdtab m) (sqe_fd q) = Some (Socket_desc c) \<Longrightarrow> is_read (sqe_opcode q) \<Longrightarrow>
   sock_rx m c = chunk # rest \<Longrightarrow>
   transfer_source q m = Some (take (sqe_len q) chunk)"
  by (simp add: transfer_source_def)

lemma run_write_socket:
  assumes idle: "take_pending tag (inflight m) = None"
    and tag: "sqe_user_data q = tag"
    and sock: "map_of (fdtab m) (sqe_fd q) = Some (Socket_desc c)"
    and wr: "\<not> is_read (sqe_opcode q)"
    and d: "take (sqe_len q) (load m (sqe_addr q)) = d" "d \<noteq> []"
  shows "run tag (Yielded (submit q m) (await_result name k)) =
           prepend [q] (run tag (k (int (length d)) (tx_append c d m)))"
proof -
  have src: "transfer_source q m = Some d"
    using transfer_source_write_socket [OF sock wr] d by simp
  have res: "full_result q m = int (length d)"
    by (simp add: full_result_def src)
  have pos: "0 < int (length d)"
    using d by simp
  have eff: "kernel_complete q (int (length d)) m = tx_append c d m"
    using pos by (simp add: kernel_complete_def src sock wr tx_append_def)
  show ?thesis
    by (subst run_yield_submit [OF idle tag])
       (simp only: res eff run_await_result_positive [OF pos])
qed

lemma run_read_file:
  assumes idle: "take_pending tag (inflight m) = None"
    and tag: "sqe_user_data q = tag"
    and fileq: "map_of (fdtab m) (sqe_fd q) = Some (File_desc (Regular content))"
    and rd: "is_read (sqe_opcode q)"
    and d: "take (sqe_len q) (drop (nat (sqe_off q)) content) = d" "d \<noteq> []"
  shows "run tag (Yielded (submit q m) (await_result name k)) =
           prepend [q] (run tag (k (int (length d)) (store (sqe_addr q) d m)))"
proof -
  have src: "transfer_source q m = Some d"
    using transfer_source_read_file [OF fileq rd] d by simp
  have res: "full_result q m = int (length d)"
    by (simp add: full_result_def src)
  have pos: "0 < int (length d)"
    using d by simp
  have eff: "kernel_complete q (int (length d)) m = store (sqe_addr q) d m"
    using pos by (simp add: kernel_complete_def src fileq rd)
  show ?thesis
    by (subst run_yield_submit [OF idle tag])
       (simp only: res eff run_await_result_positive [OF pos])
qed

lemma run_read_socket:
  assumes idle: "take_pending tag (inflight m) = None"
    and tag: "sqe_user_data q = tag"
    and sock: "map_of (fdtab m) (sqe_fd q) = Some (Socket_desc c)"
    and rd: "is_read (sqe_opcode q)"
    and rx: "sock_rx m c = chunk # rest"
    and d: "take (sqe_len q) chunk = d" "d \<noteq> []"
  shows "run tag (Yielded (submit q m) (await_result name k)) =
           prepend [q] (run tag (k (int (length d))
             (store (sqe_addr q) d
                (m\<lparr>sock_rx := (sock_rx m)(c :=
                     (if drop (length d) chunk = [] then rest else drop (length d) chunk # rest))\<rparr>))))"
proof -
  have src: "transfer_source q m = Some d"
    using transfer_source_read_socket [OF sock rd rx] d by simp
  have res: "full_result q m = int (length d)"
    by (simp add: full_result_def src)
  have pos: "0 < int (length d)"
    using d by simp
  have eff: "kernel_complete q (int (length d)) m =
      store (sqe_addr q) d
        (m\<lparr>sock_rx := (sock_rx m)(c :=
             (if drop (length d) chunk = [] then rest else drop (length d) chunk # rest))\<rparr>)"
    using pos by (simp add: kernel_complete_def src sock rd rx)
  show ?thesis
    by (subst run_yield_submit [OF idle tag])
       (simp only: res eff run_await_result_positive [OF pos])
qed

lemma store_frame [simp]:
  "fdtab (store r d m) = fdtab m"
  "inflight (store r d m) = inflight m"
  "sock_tx (store r d m) = sock_tx m"
  "sock_rx (store r d m) = sock_rx m"
  "filesystem (store r d m) = filesystem m"
  "open_log (store r d m) = open_log m"
  "dead_bytes (store r d m) = dead_bytes m"
  by (cases r; simp add: store_def)+

lemma tx_append_frame [simp]:
  "fdtab (tx_append c d m) = fdtab m"
  "inflight (tx_append c d m) = inflight m"
  "sock_rx (tx_append c d m) = sock_rx m"
  "filesystem (tx_append c d m) = filesystem m"
  "open_log (tx_append c d m) = open_log m"
  "pool_mem (tx_append c d m) = pool_mem m"
  "stack_mem (tx_append c d m) = stack_mem m"
  "dead_bytes (tx_append c d m) = dead_bytes m"
  "sock_tx (tx_append c d m) c = sock_tx m c @ d"
  by (simp_all add: tx_append_def)

lemma load_tx_append [simp]: "load (tx_append c d m) r = load m r"
  by (cases r) (simp_all add: load_def)

lemma load_store_Pool_slot [simp]:
  "load (store (Pool_slot p) d m) (Pool_slot p) = d @ drop (length d) (pool_mem m p)"
  by (simp add: load_def store_def)

lemma load_store_Stack_array [simp]:
  "load (store (Stack_array a n) d m) (Stack_array a n) = d @ drop (length d) (stack_mem m a n)"
  by (simp add: load_def store_def)

lemma load_Literal [simp]: "load m (Literal s) = s"
  by (simp add: load_def)

text \<open>One read of the file into a buffer followed by one write of the buffer to the socket.\<close>

lemma run_cycle:
  assumes idle: "take_pending tag (inflight m) = None"
    and tags: "sqe_user_data rq = tag" "sqe_user_data wq = tag"
    and fileq: "map_of (fdtab m) (sqe_fd rq) = Some (File_desc (Regular content))"
    and sock: "map_of (fdtab m) (sqe_fd wq) = Some (Socket_desc c)"
    and ops: "is_read (sqe_opcode rq)" "\<not> is_read (sqe_opcode wq)"
    and addr: "sqe_addr rq = r" "sqe_addr wq = r" "r = Pool_slot p \<or> r = Stack_array a nm"
    and len: "sqe_len rq = n" "sqe_len wq = n" "0 < n"
    and off: "sqe_off rq = off" "0 \<le> off" "nat off + n \<le> length content"
  shows "run tag (Yielded (submit rq m) (await_result name1 (\<lambda>r1 m1.
            Yielded (submit wq m1) (await_result name2 (\<lambda>r2 m2. K m2))))) =
         prepend [rq, wq]
           (run tag (K (tx_append c (take n (drop (nat off) content))
                          (store r (take n (drop (nat off) content)) m))))"
proof -
  define d where "d = take n (drop (nat off) content)"
  have dlen: "length d = n"
    using off len by (simp add: d_def)
  have dne: "d \<noteq> []"
    using dlen len by auto
  have rd: "take (sqe_len rq) (drop (nat (sqe_off rq)) content) = d"
    by (simp add: d_def len off)
  let ?m1 = "store (sqe_addr rq) d m"
  have idle1: "take_pending tag (inflight ?m1) = None"
    using idle by simp
  have sock1: "map_of (fdtab ?m1) (sqe_fd wq) = Some (Socket_desc c)"
    using sock by simp
  have wd: "take (sqe_len wq) (load ?m1 (sqe_addr wq)) = d"
    using addr dlen by (auto simp: len)
  show ?thesis
    unfolding d_def [symmetric]
    by (subst run_read_file [OF idle tags(1) fileq ops(1) rd dne],
        subst run_write_socket [OF idle1 tags(2) sock1 ops(2) wd dne])
       (simp add: addr)
qed

subsection \<open>String views and descriptors\<close>

lemma compare_chars_eq_0: "compare_chars a b = 0 \<longleftrightarrow> a = b"
  by (induction a b rule: compare_chars.induct) auto

lemma sv_compare_GET: "sv_compare v 0 3 ''GET'' = Inr (compare_chars (take 3 v) ''GET'')"
  by (simp add: sv_compare_def sv_substr_def)

lemma index_from_eq:
  "index_from ch i xs =
     (if ch \<in> set xs then Some (i + length (takeWhile (\<lambda>x. x \<noteq> ch) xs)) else None)"
  by (induction xs arbitrary: i) auto

lemma substr_request_target:
  assumes "4 \<le> length v" and "length v \<le> nat BUF_SIZE"
  shows "sv_substr v 4 (size_sub (sv_find v CHR '' '' 4) 4) = Inr (request_target v)"
proof (cases "CHR '' '' \<in> set (drop 4 v)")
  case True
  define l where "l = length (takeWhile (\<lambda>x. x \<noteq> CHR '' '') (drop 4 v))"
  have "l \<le> length (drop 4 v)"
    unfolding l_def by (rule length_takeWhile_le)
  then have l: "l \<le> 1024"
    using assms by (simp add: BUF_SIZE_def)
  have find: "sv_find v CHR '' '' 4 = 4 + l"
    using True by (simp add: sv_find_def index_from_eq l_def)
  have "size_sub (4 + l) 4 = l"
    using l by (simp add: size_sub_def)
  moreover have "take l (drop 4 v) = request_target v"
    unfolding l_def request_target_def by (rule takeWhile_eq_take [symmetric])
  ultimately show ?thesis
    using assms by (simp add: sv_substr_def find)
next
  case False
  have find: "sv_find v CHR '' '' 4 = npos"
    using False by (simp add: sv_find_def index_from_eq)
  have sub: "size_sub npos 4 = 2 ^ 64 - 5"
    by (simp add: size_sub_def npos_def)
  have "length (drop 4 v) \<le> (2 ^ 64 - 5 :: nat)"
    using assms by (simp add: BUF_SIZE_def)
  then have "take (2 ^ 64 - 5) (drop 4 v) = drop 4 v"
    by (rule take_all)
  moreover have "request_target v = drop 4 v"
    using False by (auto simp: request_target_def takeWhile_eq_all_conv)
  ultimately show ?thesis
    using assms by (simp add: sv_substr_def find sub)
qed

lemma fold_max_ge: "(a::int) \<le> fold (\<lambda>kv acc. max acc (fst kv + 1)) tab a"
proof (induction tab arbitrary: a)
  case Nil
  show ?case by simp
next
  case (Cons x tab)
  have "a \<le> max a (fst x + 1)" by simp
  also have "\<dots> \<le> fold (\<lambda>kv acc. max acc (fst kv + 1)) tab (max a (fst x + 1))"
    by (rule Cons.IH)
  finally show ?case by simp
qed

lemma fold_max_gt:
  "kv \<in> set tab \<Longrightarrow> fst kv < fold (\<lambda>kv acc. max acc (fst kv + 1)) tab (a::int)"
proof (induction tab arbitrary: a)
  case Nil
  then show ?case by simp
next
  case (Cons x tab)
  show ?case
  proof (cases "kv = x")
    case True
    have "fst x < max a (fst x + 1)" by simp
    also have "\<dots> \<le> fold (\<lambda>kv acc. max acc (fst kv + 1)) tab (max a (fst x + 1))"
      by (rule fold_max_ge)
    finally show ?thesis using True by simp
  next
    case False
    then have "kv \<in> set tab" using Cons.prems by simp
    then show ?thesis using Cons.IH by simp
  qed
qed

lemma fresh_fd_nonneg: "0 \<le> fresh_fd tab"
  unfolding fresh_fd_def by (rule fold_max_ge)

lemma map_of_fresh_fd: "map_of tab (fresh_fd tab) = None"
proof -
  have "fresh_fd tab \<notin> fst ` set tab"
    using fold_max_gt [of _ tab 0] by (fastforce simp: fresh_fd_def)
  then show ?thesis by (simp add: map_of_eq_None_iff)
qed

lemma map_of_in_table_neq_fresh: "map_of tab fd = Some x \<Longrightarrow> fd \<noteq> fresh_fd tab"
  using map_of_fresh_fd [of tab] by auto

subsection \<open>Sending the file chunk by chunk\<close>

lemma prep_fixed_op_fields:
  assumes "pool_ptr (localData fiber) = Some p" and "0 < n" and "n \<le> nat BUF_SIZE"
  shows "sqe_addr (prep_fixed_op oc fiber fd n off) = Pool_slot p"
    and "sqe_len (prep_fixed_op oc fiber fd n off) = n"
    and "sqe_off (prep_fixed_op oc fiber fd n off) = off"
    and "sqe_fd (prep_fixed_op oc fiber fd n off) = fd"
    and "sqe_opcode (prep_fixed_op oc fiber fd n off) = oc"
    and "sqe_user_data (prep_fixed_op oc fiber fd n off) = self fiber"
  using assms by (simp_all add: prep_fixed_op_def BUF_SIZE_def)

lemma prep_op_fields [simp]:
  "sqe_addr (prep_op oc fiber fd iov off) = fst iov"
  "sqe_len (prep_op oc fiber fd iov off) = snd iov"
  "sqe_off (prep_op oc fiber fd iov off) = off"
  "sqe_fd (prep_op oc fiber fd iov off) = fd"
  "sqe_opcode (prep_op oc fiber fd iov off) = oc"
  "sqe_user_data (prep_op oc fiber fd iov off) = self fiber"
  by (simp_all add: prep_op_def)

lemma uring_fixed_op_fun:
  "uring_fixed_op oc name fiber fd n off k =
     (\<lambda>m. Yielded (submit (prep_fixed_op oc fiber fd n off) m) (await_result name k))"
  by (rule ext) (simp add: uring_fixed_op_def)

lemma uring_op_fun:
  "uring_op oc name fiber fd iov off k =
     (\<lambda>m. Yielded (submit (prep_op oc fiber fd iov off) m) (await_result name k))"
  by (rule ext) (simp add: uring_op_def)

lemma loop_exit_step:
  "stsize - offset > BUF_SIZE \<Longrightarrow> loop_exit stsize offset = loop_exit stsize (offset + BUF_SIZE)"
  by (subst loop_exit_def, subst loop_offsets.simps) (simp add: loop_exit_def algebra_simps)

lemma loop_exit_stop:
  "\<not> stsize - offset > BUF_SIZE \<Longrightarrow> loop_exit stsize offset = offset"
  by (subst loop_exit_def, subst loop_offsets.simps) simp

lemma loop_exit_bounds:
  "offset \<le> stsize \<Longrightarrow>
   offset \<le> loop_exit stsize offset \<and> loop_exit stsize offset \<le> stsize \<and>
   stsize - loop_exit stsize offset \<le> BUF_SIZE"
proof (induction stsize offset rule: loop_offsets.induct)
  case (1 stsize offset)
  show ?case
  proof (cases "stsize - offset > BUF_SIZE")
    case True
    then have "offset + BUF_SIZE \<le> stsize" by simp
    from "1.IH" [OF True this] show ?thesis
      using True by (simp add: loop_exit_step BUF_SIZE_def)
  next
    case False
    then show ?thesis using "1.prems" by (simp add: loop_exit_stop)
  qed
qed

lemma run_send_loop_fixed:
  "pool_ptr (localData fiber) = Some p \<Longrightarrow>
   take_pending (self fiber) (inflight m) = None \<Longrightarrow>
   map_of (fdtab m) infd = Some (File_desc (Regular content)) \<Longrightarrow>
   map_of (fdtab m) sockfd = Some (Socket_desc c) \<Longrightarrow>
   stsize = int (length content) \<Longrightarrow> 0 \<le> offset \<Longrightarrow> offset \<le> stsize \<Longrightarrow>
   \<exists>m'. run (self fiber) (send_loop_fixed fiber infd sockfd stsize offset k m) =
          prepend (concat (map (cycle_ops fiber infd sockfd (nat BUF_SIZE)) (loop_offsets stsize offset)))
            (run (self fiber) (k (loop_exit stsize offset) m')) \<and>
        fdtab m' = fdtab m \<and> inflight m' = inflight m \<and>
        sock_tx m' c =
          sock_tx m c @ take (nat (loop_exit stsize offset - offset)) (drop (nat offset) content)"
proof (induction fiber infd sockfd stsize offset k m rule: send_loop_fixed.induct)
  case (1 fiber infd sockfd stsize offset k m)
  show ?case
  proof (cases "stsize - offset > BUF_SIZE")
    case False
    have "send_loop_fixed fiber infd sockfd stsize offset k m = k offset m"
      using False by (subst send_loop_fixed.simps) simp
    moreover have "loop_offsets stsize offset = []"
      using False by (subst loop_offsets.simps) simp
    ultimately show ?thesis
      using False by (intro exI [of _ m]) (simp add: loop_exit_stop)
  next
    case True
    let ?n = "nat BUF_SIZE"
    let ?rq = "prep_fixed_op READ_FIXED fiber infd ?n offset"
    let ?wq = "prep_fixed_op WRITE_FIXED fiber sockfd ?n 0"
    let ?d = "take ?n (drop (nat offset) content)"
    let ?m1 = "tx_append c ?d (store (Pool_slot p) ?d m)"
    have n: "0 < ?n" "?n \<le> nat BUF_SIZE"
      by (simp_all add: BUF_SIZE_def)
    note pool = "1.prems"(1)
    have fit: "nat offset + ?n \<le> length content"
      using True "1.prems"(5,6) by (simp add: BUF_SIZE_def)
    have unfold: "send_loop_fixed fiber infd sockfd stsize offset k m =
        Yielded (submit ?rq m) (await_result ''read_fixed'' (\<lambda>r1 m1.
          Yielded (submit ?wq m1) (await_result ''write_fixed'' (\<lambda>r2 m2.
            send_loop_fixed fiber infd sockfd stsize (offset + BUF_SIZE) k m2))))"
      using True
      by (subst send_loop_fixed.simps)
         (simp add: await_read_fixed_def await_write_fixed_def uring_fixed_op_fun)
    have cycle: "run (self fiber) (send_loop_fixed fiber infd sockfd stsize offset k m) =
        prepend [?rq, ?wq]
          (run (self fiber) (send_loop_fixed fiber infd sockfd stsize (offset + BUF_SIZE) k ?m1))"
      unfolding unfold
      by (rule run_cycle [where p = p and content = content and off = offset])
         (use "1.prems" fit n in \<open>simp_all add: prep_fixed_op_fields [OF pool n] is_read_def\<close>)
    have "\<exists>m'. run (self fiber) (send_loop_fixed fiber infd sockfd stsize (offset + BUF_SIZE) k ?m1) =
          prepend (concat (map (cycle_ops fiber infd sockfd (nat BUF_SIZE))
                     (loop_offsets stsize (offset + BUF_SIZE))))
            (run (self fiber) (k (loop_exit stsize (offset + BUF_SIZE)) m')) \<and>
        fdtab m' = fdtab ?m1 \<and> inflight m' = inflight ?m1 \<and>
        sock_tx m' c =
          sock_tx ?m1 c @ take (nat (loop_exit stsize (offset + BUF_SIZE) - (offset + BUF_SIZE)))
                            (drop (nat (offset + BUF_SIZE)) content)"
      by (rule "1.IH" [OF True]) (use "1.prems" True in \<open>simp_all add: BUF_SIZE_def\<close>)
    then obtain m' where
      run': "run (self fiber) (send_loop_fixed fiber infd sockfd stsize (offset + BUF_SIZE) k ?m1) =
          prepend (concat (map (cycle_ops fiber infd sockfd (nat BUF_SIZE))
                     (loop_offsets stsize (offset + BUF_SIZE))))
            (run (self fiber) (k (loop_exit stsize (offset + BUF_SIZE)) m'))"
      and frame: "fdtab m' = fdtab ?m1" "inflight m' = inflight ?m1"
      and tx: "sock_tx m' c =
          sock_tx ?m1 c @ take (nat (loop_exit stsize (offset + BUF_SIZE) - (offset + BUF_SIZE)))
                            (drop (nat (offset + BUF_SIZE)) content)"
      by blast
    have offs: "loop_offsets stsize offset = offset # loop_offsets stsize (offset + BUF_SIZE)"
      using True by (subst loop_offsets.simps) simp
    have cyc: "cycle_ops fiber infd sockfd ?n offset = [?rq, ?wq]"
      by (simp add: cycle_ops_def pool)
    have ge: "offset + BUF_SIZE \<le> loop_exit stsize (offset + BUF_SIZE)"
      using loop_exit_bounds [of "offset + BUF_SIZE" stsize] True by simp
    have split: "take (nat (loop_exit stsize (offset + BUF_SIZE) - offset)) (drop (nat offset) content) =
        ?d @ take (nat (loop_exit stsize (offset + BUF_SIZE) - (offset + BUF_SIZE)))
               (drop (nat (offset + BUF_SIZE)) content)"
    proof -
      have "nat (loop_exit stsize (offset + BUF_SIZE) - offset) =
          ?n + nat (loop_exit stsize (offset + BUF_SIZE) - (offset + BUF_SIZE))"
        using ge by (simp add: BUF_SIZE_def)
      moreover have "drop ?n (drop (nat offset) content) = drop (nat (offset + BUF_SIZE)) content"
        using "1.prems"(6) by (simp add: BUF_SIZE_def nat_add_distrib add.commute)
      ultimately show ?thesis
        by (simp add: take_add)
    qed
    show ?thesis
      apply (rule exI [of _ m'])
      apply (simp only: cycle run' prepend_prepend offs loop_exit_step [OF True] frame tx split)
      apply (simp add: cyc)
      done
  qed
qed

lemma run_send_loop_iov:
  "pool_ptr (localData fiber) = None \<Longrightarrow>
   iov = (Stack_array (self fiber) ''filebuf'', nat BUF_SIZE) \<Longrightarrow>
   take_pending (self fiber) (inflight m) = None \<Longrightarrow>
   map_of (fdtab m) infd = Some (File_desc (Regular content)) \<Longrightarrow>
   map_of (fdtab m) sockfd = Some (Socket_desc c) \<Longrightarrow>
   stsize = int (length content) \<Longrightarrow> 0 \<le> offset \<Longrightarrow> offset \<le> stsize \<Longrightarrow>
   \<exists>m'. run (self fiber) (send_loop_iov fiber infd sockfd iov stsize offset k m) =
          prepend (concat (map (cycle_ops fiber infd sockfd (nat BUF_SIZE)) (loop_offsets stsize offset)))
            (run (self fiber) (k (loop_exit stsize offset) m')) \<and>
        fdtab m' = fdtab m \<and> inflight m' = inflight m \<and>
        sock_tx m' c =
          sock_tx m c @ take (nat (loop_exit stsize offset - offset)) (drop (nat offset) content)"
proof (induction fiber infd sockfd iov stsize offset k m rule: send_loop_iov.induct)
  case (1 fiber infd sockfd iov stsize offset k m)
  show ?case
  proof (cases "stsize - offset > BUF_SIZE")
    case False
    have "send_loop_iov fiber infd sockfd iov stsize offset k m = k offset m"
      using False by (subst send_loop_iov.simps) simp
    moreover have "loop_offsets stsize offset = []"
      using False by (subst loop_offsets.simps) simp
    ultimately show ?thesis
      using False by (intro exI [of _ m]) (simp add: loop_exit_stop)
  next
    case True
    let ?n = "nat BUF_SIZE"
    let ?r = "Stack_array (self fiber) ''filebuf''"
    let ?rq = "prep_op READV fiber infd iov offset"
    let ?wq = "prep_op WRITEV fiber sockfd iov 0"
    let ?d = "take ?n (drop (nat offset) content)"
    let ?m1 = "tx_append c ?d (store ?r ?d m)"
    note pool = "1.prems"(1) and iov = "1.prems"(2)
    have n: "0 < ?n"
      by (simp add: BUF_SIZE_def)
    have fit: "nat offset + ?n \<le> length content"
      using True "1.prems"(6,7) by (simp add: BUF_SIZE_def)
    have unfold: "send_loop_iov fiber infd sockfd iov stsize offset k m =
        Yielded (submit ?rq m) (await_result ''readv'' (\<lambda>r1 m1.
          Yielded (submit ?wq m1) (await_result ''writev'' (\<lambda>r2 m2.
            send_loop_iov fiber infd sockfd iov stsize (offset + BUF_SIZE) k m2))))"
      using True
      by (subst send_loop_iov.simps)
         (simp add: await_readv_def await_writev_def uring_op_fun)
    have cycle: "run (self fiber) (send_loop_iov fiber infd sockfd iov stsize offset k m) =
        prepend [?rq, ?wq]
          (run (self fiber) (send_loop_iov fiber infd sockfd iov stsize (offset + BUF_SIZE) k ?m1))"
      unfolding unfold
      by (rule run_cycle [where a = "self fiber" and nm = "''filebuf''" and content = content
            and off = offset])
         (use "1.prems" fit n in \<open>simp_all add: is_read_def\<close>)
    have "\<exists>m'. run (self fiber) (send_loop_iov fiber infd sockfd iov stsize (offset + BUF_SIZE) k ?m1) =
          prepend (concat (map (cycle_ops fiber infd sockfd (nat BUF_SIZE))
                     (loop_offsets stsize (offset + BUF_SIZE))))
            (run (self fiber) (k (loop_exit stsize (offset + BUF_SIZE)) m')) \<and>
        fdtab m' = fdtab ?m1 \<and> inflight m' = inflight ?m1 \<and>
        sock_tx m' c =
          sock_tx ?m1 c @ take (nat (loop_exit stsize (offset + BUF_SIZE) - (offset + BUF_SIZE)))
                            (drop (nat (offset + BUF_SIZE)) content)"
      by (rule "1.IH" [OF True]) (use "1.prems" True in \<open>simp_all add: BUF_SIZE_def\<close>)
    then obtain m' where
      run': "run (self fiber) (send_loop_iov fiber infd sockfd iov stsize (offset + BUF_SIZE) k ?m1) =
          prepend (concat (map (cycle_ops fiber infd sockfd (nat BUF_SIZE))
                     (loop_offsets stsize (offset + BUF_SIZE))))
            (run (self fiber) (k (loop_exit stsize (offset + BUF_SIZE)) m'))"
      and frame: "fdtab m' = fdtab ?m1" "inflight m' = inflight ?m1"
      and tx: "sock_tx m' c =
          sock_tx ?m1 c @ take (nat (loop_exit stsize (offset + BUF_SIZE) - (offset + BUF_SIZE)))
                            (drop (nat (offset + BUF_SIZE)) content)"
      by blast
    have offs: "loop_offsets stsize offset = offset # loop_offsets stsize (offset + BUF_SIZE)"
      using True by (subst loop_offsets.simps) simp
    have cyc: "cycle_ops fiber infd sockfd ?n offset = [?rq, ?wq]"
      by (simp add: cycle_ops_def pool iov)
    have ge: "offset + BUF_SIZE \<le> loop_exit stsize (offset + BUF_SIZE)"
      using loop_exit_bounds [of "offset + BUF_SIZE" stsize] True by simp
    have split: "take (nat (loop_exit stsize (offset + BUF_SIZE) - offset)) (drop (nat offset) content) =
        ?d @ take (nat (loop_exit stsize (offset + BUF_SIZE) - (offset + BUF_SIZE)))
               (drop (nat (offset + BUF_SIZE)) content)"
    proof -
      have "nat (loop_exit stsize (offset + BUF_SIZE) - offset) =
          ?n + nat (loop_exit stsize (offset + BUF_SIZE) - (offset + BUF_SIZE))"
        using ge by (simp add: BUF_SIZE_def)
      moreover have "drop ?n (drop (nat offset) content) = drop (nat (offset + BUF_SIZE)) content"
        using "1.prems"(7) by (simp add: BUF_SIZE_def nat_add_distrib add.commute)
      ultimately show ?thesis
        by (simp add: take_add)
    qed
    show ?thesis
      apply (rule exI [of _ m'])
      apply (simp only: cycle run' prepend_prepend offs loop_exit_step [OF True] frame tx split)
      apply (simp add: cyc)
      done
  qed
qed

subsection \<open>Responses of \<^verbatim>\<open>http_send_file\<close> and \<^verbatim>\<open>serve\<close>\<close>

lemma http_200_hdr_nonempty: "http_200_hdr n \<noteq> []"
  by (simp add: http_200_hdr_def)

lemma sys_close_frame [simp]:
  "sock_tx (sys_close fd m) = sock_tx m"
  "open_log (sys_close fd m) = open_log m"
  "inflight (sys_close fd m) = inflight m"
  by (simp_all add: sys_close_def)

lemma run_http_send_file_200:
  assumes idle: "take_pending (self fiber) (inflight m) = None"
    and sock: "map_of (fdtab m) (clientfd (localData fiber)) = Some (Socket_desc c)"
    and reg: "filesystem m (c_str filename) = Some (Regular content)"
  shows "\<exists>m'. run (self fiber) (http_send_file fiber filename m) =
            (file_ops fiber (fresh_fd (fdtab m)) (int (length content)), Finished m') \<and>
          sock_tx m' c = sock_tx m c @ http_200_hdr (int (length content)) @ content"
proof -
  define tag where "tag = self fiber"
  define sockfd where "sockfd = clientfd (localData fiber)"
  define infd where "infd = fresh_fd (fdtab m)"
  define stsize where "stsize = int (length content)"
  define m1 where "m1 = m\<lparr>fdtab := (infd, File_desc (Regular content)) # fdtab m,
                          open_log := open_log m @ [c_str filename]\<rparr>"
  define hdr where "hdr = http_200_hdr stsize"
  define hq where "hq = prep_op WRITEV fiber sockfd (to_iov_sv hdr) 0"
  define m2 where "m2 = tx_append c hdr m1"
  define e where "e = loop_exit stsize 0"
  have opened: "sys_open (c_str filename) m = (infd, m1)"
    by (simp add: sys_open_def reg infd_def m1_def Let_def)
  have fstat: "sys_fstat infd m1 = (0, \<lparr>S_ISREG = True, st_size = stsize\<rparr>)"
    by (simp add: sys_fstat_def m1_def stsize_def)
  have infd0: "\<not> infd < 0"
    using fresh_fd_nonneg [of "fdtab m"] by (simp add: infd_def)
  have neq: "sockfd \<noteq> infd"
    using map_of_in_table_neq_fresh [OF sock] by (simp add: sockfd_def infd_def)
  have sock2: "map_of (fdtab m2) sockfd = Some (Socket_desc c)"
    using sock neq by (simp add: m2_def m1_def sockfd_def)
  have file2: "map_of (fdtab m2) infd = Some (File_desc (Regular content))"
    by (simp add: m2_def m1_def)
  have idle1: "take_pending tag (inflight m1) = None"
    using idle by (simp add: m1_def tag_def)
  have idle2: "take_pending (self fiber) (inflight m2) = None"
    using idle by (simp add: m2_def m1_def)
  have sock1: "map_of (fdtab m1) (sqe_fd hq) = Some (Socket_desc c)"
    using sock neq by (simp add: hq_def m1_def sockfd_def)
  have tx2: "sock_tx m2 c = sock_tx m c @ hdr"
    by (simp add: m2_def m1_def)
  have bounds: "0 \<le> e" "e \<le> stsize" "stsize - e \<le> BUF_SIZE"
    using loop_exit_bounds [of 0 stsize] by (simp_all add: e_def stsize_def)
  have whole: "take (nat e) content @ take (nat (stsize - e)) (drop (nat e) content) = content"
  proof -
    have "nat e + nat (stsize - e) = length content"
      using bounds by (simp add: stsize_def)
    then have "take (nat (stsize - e)) (drop (nat e) content) = drop (nat e) content"
      by simp
    then show ?thesis by simp
  qed
  have hdr_run: "run tag (Yielded (submit hq m1) (await_result ''writev'' (\<lambda>r. K))) =
      prepend [hq] (run tag (K m2))" for K
  proof -
    have "run tag (Yielded (submit hq m1) (await_result ''writev'' (\<lambda>r. K))) =
        prepend [hq] (run tag (K (tx_append c hdr m1)))"
      using run_write_socket [OF idle1 _ sock1, where d = hdr and k = "\<lambda>r. K" and name = "''writev''"]
      by (simp add: hq_def tag_def is_read_def to_iov_sv_def hdr_def http_200_hdr_nonempty)
    then show ?thesis by (simp add: m2_def)
  qed
  show ?thesis
  proof (cases "pool_ptr (localData fiber)")
    case (Some p)
    define K where "K = (\<lambda>offset m2.
        if stsize > offset then
          await_read_fixed fiber infd (nat (stsize - offset)) offset (\<lambda>r3 m3.
          await_write_fixed fiber sockfd (nat (stsize - offset)) 0
            (\<lambda>r4 m4. Finished (sys_close infd m4)) m3) m2
        else Finished (sys_close infd m2))"
    have unfold: "http_send_file fiber filename m =
        Yielded (submit hq m1) (await_result ''writev''
          (\<lambda>r. send_loop_fixed fiber infd sockfd stsize 0 K))"
      using infd0
      by (simp add: http_send_file_def opened fstat Some await_writev_def uring_op_fun
          sockfd_def [symmetric] hq_def hdr_def K_def cong: if_cong)
    obtain m3 where
      loop: "run (self fiber) (send_loop_fixed fiber infd sockfd stsize 0 K m2) =
          prepend (concat (map (cycle_ops fiber infd sockfd (nat BUF_SIZE)) (loop_offsets stsize 0)))
            (run (self fiber) (K e m3))"
      and frame: "fdtab m3 = fdtab m2" "inflight m3 = inflight m2"
      and tx3: "sock_tx m3 c = sock_tx m2 c @ take (nat e) content"
      using run_send_loop_fixed [OF Some idle2 file2 sock2, of stsize 0 K]
      by (auto simp: stsize_def e_def)
    have tail: "\<exists>m'. run (self fiber) (K e m3) =
          ((if stsize > e then cycle_ops fiber infd sockfd (nat (stsize - e)) e else []), Finished m') \<and>
        sock_tx m' c = sock_tx m3 c @ take (nat (stsize - e)) (drop (nat e) content)"
    proof (cases "stsize > e")
      case False
      then show ?thesis
        using bounds by (simp add: K_def)
    next
      case True
      let ?n = "nat (stsize - e)"
      let ?rq = "prep_fixed_op READ_FIXED fiber infd ?n e"
      let ?wq = "prep_fixed_op WRITE_FIXED fiber sockfd ?n 0"
      let ?d = "take ?n (drop (nat e) content)"
      have n: "0 < ?n" "?n \<le> nat BUF_SIZE"
        using True bounds by simp_all
      have fit: "nat e + ?n \<le> length content"
        using True bounds by (simp add: stsize_def)
      have Ke: "K e m3 = Yielded (submit ?rq m3) (await_result ''read_fixed'' (\<lambda>r1 m1.
          Yielded (submit ?wq m1) (await_result ''write_fixed'' (\<lambda>r2 m2. Finished (sys_close infd m2)))))"
        using True by (simp add: K_def await_read_fixed_def await_write_fixed_def uring_fixed_op_fun)
      have "run (self fiber) (K e m3) =
          prepend [?rq, ?wq]
            (run (self fiber) (Finished (sys_close infd (tx_append c ?d (store (Pool_slot p) ?d m3)))))"
        unfolding Ke
        by (rule run_cycle [where p = p and content = content and off = e])
           (use idle2 file2 sock2 frame n fit bounds(1) in
             \<open>simp_all add: prep_fixed_op_fields [OF Some n] is_read_def\<close>)
      then show ?thesis
        using True by (simp add: prepend_def cycle_ops_def Some)
    qed
    then obtain m' where
      tail_run: "run (self fiber) (K e m3) =
          ((if stsize > e then cycle_ops fiber infd sockfd (nat (stsize - e)) e else []), Finished m')"
      and tx': "sock_tx m' c = sock_tx m3 c @ take (nat (stsize - e)) (drop (nat e) content)"
      by blast
    have "run (self fiber) (http_send_file fiber filename m) =
        (file_ops fiber infd stsize, Finished m')"
      unfolding unfold
      using hdr_run [of "send_loop_fixed fiber infd sockfd stsize 0 K"]
      by (simp add: tag_def loop tail_run prepend_def file_ops_def Let_def
          sockfd_def [symmetric] hq_def hdr_def e_def [symmetric])
    moreover have "sock_tx m' c = sock_tx m c @ hdr @ content"
      using whole by (simp add: tx' tx3 tx2)
    ultimately show ?thesis
      by (auto simp: infd_def stsize_def hdr_def)
  next
    case None
    define iov where "iov = (Stack_array (self fiber) ''filebuf'', nat BUF_SIZE)"
    define K where "K = (\<lambda>offset m2.
        if stsize > offset then
          await_readv fiber infd (fst iov, nat (stsize - offset)) offset (\<lambda>r3 m3.
          await_writev fiber sockfd (fst iov, nat (stsize - offset)) 0
            (\<lambda>r4 m4. Finished (sys_close infd m4)) m3) m2
        else Finished (sys_close infd m2))"
    have unfold: "http_send_file fiber filename m =
        Yielded (submit hq m1) (await_result ''writev''
          (\<lambda>r. send_loop_iov fiber infd sockfd iov stsize 0 K))"
      using infd0
      by (simp add: http_send_file_def opened fstat None await_writev_def uring_op_fun
          sockfd_def [symmetric] hq_def hdr_def K_def iov_def to_iov_array_def Let_def cong: if_cong)
    obtain m3 where
      loop: "run (self fiber) (send_loop_iov fiber infd sockfd iov stsize 0 K m2) =
          prepend (concat (map (cycle_ops fiber infd sockfd (nat BUF_SIZE)) (loop_offsets stsize 0)))
            (run (self fiber) (K e m3))"
      and frame: "fdtab m3 = fdtab m2" "inflight m3 = inflight m2"
      and tx3: "sock_tx m3 c = sock_tx m2 c @ take (nat e) content"
      using run_send_loop_iov [OF None iov_def idle2 file2 sock2, of stsize 0 K]
      by (auto simp: stsize_def e_def)
    have tail: "\<exists>m'. run (self fiber) (K e m3) =
          ((if stsize > e then cycle_ops fiber infd sockfd (nat (stsize - e)) e else []), Finished m') \<and>
        sock_tx m' c = sock_tx m3 c @ take (nat (stsize - e)) (drop (nat e) content)"
    proof (cases "stsize > e")
      case False
      then show ?thesis
        using bounds by (simp add: K_def)
    next
      case True
      let ?n = "nat (stsize - e)"
      let ?r = "Stack_array (self fiber) ''filebuf''"
      let ?rq = "prep_op READV fiber infd (?r, ?n) e"
      let ?wq = "prep_op WRITEV fiber sockfd (?r, ?n) 0"
      let ?d = "take ?n (drop (nat e) content)"
      have n: "0 < ?n"
        using True by simp
      have fit: "nat e + ?n \<le> length content"
        using True bounds by (simp add: stsize_def)
      have Ke: "K e m3 = Yielded (submit ?rq m3) (await_result ''readv'' (\<lambda>r1 m1.
          Yielded (submit ?wq m1) (await_result ''writev'' (\<lambda>r2 m2. Finished (sys_close infd m2)))))"
        using True by (simp add: K_def await_readv_def await_writev_def uring_op_fun iov_def)
      have "run (self fiber) (K e m3) =
          prepend [?rq, ?wq]
            (run (self fiber) (Finished (sys_close infd (tx_append c ?d (store ?r ?d m3)))))"
        unfolding Ke
        by (rule run_cycle [where a = "self fiber" and nm = "''filebuf''" and content = content
              and off = e])
           (use idle2 file2 sock2 frame n fit bounds(1) in \<open>simp_all add: is_read_def\<close>)
      then show ?thesis
        using True by (simp add: prepend_def cycle_ops_def None)
    qed
    then obtain m' where
      tail_run: "run (self fiber) (K e m3) =
          ((if stsize > e then cycle_ops fiber infd sockfd (nat (stsize - e)) e else []), Finished m')"
      and tx': "sock_tx m' c = sock_tx m3 c @ take (nat (stsize - e)) (drop (nat e) content)"
      by blast
    have "run (self fiber) (http_send_file fiber filename m) =
        (file_ops fiber infd stsize, Finished m')"
      unfolding unfold
      using hdr_run [of "send_loop_iov fiber infd sockfd iov stsize 0 K"]
      by (simp add: tag_def loop tail_run prepend_def file_ops_def Let_def
          sockfd_def [symmetric] hq_def hdr_def e_def [symmetric])
    moreover have "sock_tx m' c = sock_tx m c @ hdr @ content"
      using whole by (simp add: tx' tx3 tx2)
    ultimately show ?thesis
      by (auto simp: infd_def stsize_def hdr_def)
  qed
qed

lemma http_404_hdr_nonempty: "http_404_hdr \<noteq> []"
  by (simp add: http_404_hdr_def)

lemma http_400_hdr_nonempty: "http_400_hdr \<noteq> []"
  by (simp add: http_400_hdr_def)

lemma run_write_literal:
  assumes idle: "take_pending (self fiber) (inflight m) = None"
    and sock: "map_of (fdtab m) fd = Some (Socket_desc c)"
    and ne: "s \<noteq> []"
  shows "run (self fiber) (await_writev fiber fd (to_iov_sv s) 0 k m) =
           prepend [prep_op WRITEV fiber fd (to_iov_sv s) 0]
             (run (self fiber) (k (int (length s)) (tx_append c s m)))"
  unfolding await_writev_def uring_op_def
  by (rule run_write_socket [OF idle]) (use sock ne in \<open>simp_all add: is_read_def to_iov_sv_def\<close>)

lemma run_http_send_file_404:
  assumes idle: "take_pending (self fiber) (inflight m) = None"
    and sock: "map_of (fdtab m) (clientfd (localData fiber)) = Some (Socket_desc c)"
    and nf: "filesystem m (c_str filename) = None \<or> filesystem m (c_str filename) = Some Other_inode"
  shows "\<exists>m'. run (self fiber) (http_send_file fiber filename m) =
            ([prep_op WRITEV fiber (clientfd (localData fiber)) (to_iov_sv http_404_hdr) 0],
             Finished m') \<and>
          sock_tx m' c = sock_tx m c @ http_404_hdr"
proof -
  define sockfd where "sockfd = clientfd (localData fiber)"
  obtain infd m1 where opened: "sys_open (c_str filename) m = (infd, m1)"
    by (cases "sys_open (c_str filename) m")
  obtain r st where fstat: "sys_fstat infd m1 = (r, st)"
    by (cases "sys_fstat infd m1")
  have m1: "inflight m1 = inflight m \<and> sock_tx m1 = sock_tx m \<and>
      map_of (fdtab m1) sockfd = Some (Socket_desc c) \<and>
      (infd < 0 \<or> r < 0 \<or> \<not> S_ISREG st)"
    using nf
  proof
    assume "filesystem m (c_str filename) = None"
    then show ?thesis
      using opened sock by (auto simp: sys_open_def sockfd_def)
  next
    assume other: "filesystem m (c_str filename) = Some Other_inode"
    have neq: "sockfd \<noteq> fresh_fd (fdtab m)"
      using map_of_in_table_neq_fresh [OF sock] by (simp add: sockfd_def)
    show ?thesis
      using opened fstat sock neq other
      by (auto simp: sys_open_def sys_fstat_def sockfd_def Let_def)
  qed
  have unfold: "http_send_file fiber filename m =
      await_writev fiber sockfd (to_iov_sv http_404_hdr) 0 (\<lambda>_ m'. Finished (sys_close infd m')) m1"
    using m1 by (simp add: http_send_file_def opened fstat sockfd_def)
  have "run (self fiber) (http_send_file fiber filename m) =
      ([prep_op WRITEV fiber sockfd (to_iov_sv http_404_hdr) 0],
       Finished (sys_close infd (tx_append c http_404_hdr m1)))"
    unfolding unfold
    by (subst run_write_literal [where c = c])
       (use m1 idle in \<open>simp_all add: http_404_hdr_nonempty prepend_def\<close>)
  then show ?thesis
    using m1 by (auto simp: sockfd_def)
qed

lemma serve_request_GET:
  assumes "take 3 chunk = ''GET''" and "4 \<le> length chunk" and "length chunk \<le> nat BUF_SIZE"
  shows "serve_request fiber chunk m = http_send_file fiber (request_target chunk) m"
  using assms
  by (simp add: serve_request_def sv_compare_GET compare_chars_eq_0 substr_request_target)

lemma serve_request_not_GET:
  assumes "take 3 chunk \<noteq> ''GET''"
  shows "serve_request fiber chunk m =
           await_writev fiber (clientfd (localData fiber)) (to_iov_sv http_400_hdr) 0
             (\<lambda>_ m'. Finished m') m"
  using assms
  by (simp add: serve_request_def sv_compare_GET compare_chars_eq_0)

lemma run_serve_request_not_GET:
  assumes idle: "take_pending (self fiber) (inflight m) = None"
    and sock: "map_of (fdtab m) (clientfd (localData fiber)) = Some (Socket_desc c)"
    and ng: "take 3 chunk \<noteq> ''GET''"
  shows "run (self fiber) (serve_request fiber chunk m) =
           ([prep_op WRITEV fiber (clientfd (localData fiber)) (to_iov_sv http_400_hdr) 0],
            Finished (tx_append c http_400_hdr m))"
  unfolding serve_request_not_GET [OF ng]
  by (subst run_write_literal [OF idle sock http_400_hdr_nonempty]) (simp add: prepend_def)

text \<open>
  With a pool slot, the first read hands \<^verbatim>\<open>serve\<close> the head of the first chunk. Without
  one, the view is read after the array has died: the request is what the dead storage
  holds, cut to the number of bytes received.
\<close>

lemma run_serve:
  assumes idle: "take_pending (self fiber) (inflight m) = None"
    and sock: "map_of (fdtab m) (clientfd (localData fiber)) = Some (Socket_desc c)"
    and rx: "sock_rx m c = chunk # rest"
    and ne: "chunk \<noteq> []"
    and pool: "pool_ptr (localData fiber) = Some p"
  shows "\<exists>m1. run (self fiber) (serve fiber m) =
            prepend [first_read fiber]
              (run (self fiber) (serve_request fiber (take (nat BUF_SIZE) chunk) m1)) \<and>
          fdtab m1 = fdtab m \<and> inflight m1 = inflight m \<and> filesystem m1 = filesystem m \<and>
          sock_tx m1 = sock_tx m \<and> open_log m1 = open_log m"
proof -
  define sockfd where "sockfd = clientfd (localData fiber)"
  define d where "d = take (nat BUF_SIZE) chunk"
  have dne: "d \<noteq> []"
    using ne by (simp add: d_def BUF_SIZE_def)
  define rx' where "rx' = (sock_rx m)(c :=
      (if drop (length d) chunk = [] then rest else drop (length d) chunk # rest))"
  let ?q = "prep_fixed_op READ_FIXED fiber sockfd 0 0"
  let ?m1 = "store (Pool_slot p) d (m\<lparr>sock_rx := rx'\<rparr>)"
  have q: "sqe_addr ?q = Pool_slot p" "sqe_len ?q = nat BUF_SIZE" "sqe_fd ?q = sockfd"
    "sqe_user_data ?q = self fiber" "is_read (sqe_opcode ?q)"
    by (simp_all add: prep_fixed_op_def pool BUF_SIZE_def is_read_def)
  have sock': "map_of (fdtab m) (sqe_fd ?q) = Some (Socket_desc c)"
    using sock unfolding q(3) by (simp add: sockfd_def)
  have dq: "take (sqe_len ?q) chunk = d"
    by (simp add: q(2) d_def to_iov_array_def)
  have unfold: "serve fiber m = Yielded (submit ?q m) (await_result ''read_fixed''
      (\<lambda>res m'. serve_request fiber (take (nat res) (load m' (Pool_slot p))) m'))"
    by (simp add: serve_def pool await_read_fixed_def uring_fixed_op_def sockfd_def)
  have "run (self fiber) (serve fiber m) =
      prepend [?q] (run (self fiber)
        (serve_request fiber (take (nat (int (length d))) (load ?m1 (Pool_slot p))) ?m1))"
    unfolding unfold
    by (subst run_read_socket [OF idle q(4) sock' q(5) rx dq dne])
       (simp add: q(1) rx'_def to_iov_array_def)
  then have "run (self fiber) (serve fiber m) =
      prepend [first_read fiber] (run (self fiber) (serve_request fiber d ?m1))"
    by (simp add: first_read_def pool sockfd_def)
  then show ?thesis
    unfolding d_def [symmetric] by (intro exI [of _ ?m1]) simp
qed

lemma run_serve_unpooled:
  assumes idle: "take_pending (self fiber) (inflight m) = None"
    and sock: "map_of (fdtab m) (clientfd (localData fiber)) = Some (Socket_desc c)"
    and rx: "sock_rx m c = chunk # rest"
    and ne: "chunk \<noteq> []"
    and pool: "pool_ptr (localData fiber) = None"
  shows "\<exists>m1. run (self fiber) (serve fiber m) =
            prepend [first_read fiber]
              (run (self fiber)
                (serve_request fiber
                  (take (min (nat BUF_SIZE) (length chunk)) (dead_bytes m (self fiber) ''buffer''))
                  m1)) \<and>
          fdtab m1 = fdtab m \<and> inflight m1 = inflight m \<and> filesystem m1 = filesystem m \<and>
          sock_tx m1 = sock_tx m \<and> open_log m1 = open_log m"
proof -
  define sockfd where "sockfd = clientfd (localData fiber)"
  define d where "d = take (nat BUF_SIZE) chunk"
  have dne: "d \<noteq> []"
    using ne by (simp add: d_def BUF_SIZE_def)
  have dlen: "length d = min (nat BUF_SIZE) (length chunk)"
    by (simp add: d_def min.commute)
  define rx' where "rx' = (sock_rx m)(c :=
      (if drop (length d) chunk = [] then rest else drop (length d) chunk # rest))"
  let ?r = "Stack_array (self fiber) ''buffer''"
  let ?q = "prep_op READV fiber sockfd (to_iov_array ?r) 0"
  let ?m1 = "store ?r d (m\<lparr>sock_rx := rx'\<rparr>)"
  have q: "sqe_addr ?q = ?r" "sqe_len ?q = nat BUF_SIZE" "sqe_fd ?q = sockfd"
    "sqe_user_data ?q = self fiber" "is_read (sqe_opcode ?q)"
    by (simp_all add: to_iov_array_def is_read_def)
  have sock': "map_of (fdtab m) (sqe_fd ?q) = Some (Socket_desc c)"
    using sock unfolding q(3) by (simp add: sockfd_def)
  have dq: "take (sqe_len ?q) chunk = d"
    by (simp add: q(2) d_def to_iov_array_def)
  have unfold: "serve fiber m = Yielded (submit ?q m) (await_result ''readv''
      (\<lambda>res m'. serve_request fiber (take (nat res) (dangling m' ?r)) m'))"
    by (simp add: serve_def pool await_readv_def uring_op_def sockfd_def Let_def)
  have "run (self fiber) (serve fiber m) =
      prepend [?q] (run (self fiber)
        (serve_request fiber (take (nat (int (length d))) (dangling ?m1 ?r)) ?m1))"
    unfolding unfold
    by (subst run_read_socket [OF idle q(4) sock' q(5) rx dq dne])
       (simp add: q(1) rx'_def to_iov_array_def)
  then have "run (self fiber) (serve fiber m) =
      prepend [first_read fiber]
        (run (self fiber)
          (serve_request fiber (take (length d) (dead_bytes m (self fiber) ''buffer'')) ?m1))"
    by (simp add: first_read_def pool sockfd_def dangling_def)
  then show ?thesis
    unfolding dlen by (intro exI [of _ ?m1]) simp
qed

lemma loop_offsets_multiple:
  "i < k \<Longrightarrow>
   loop_offsets (int k * BUF_SIZE) (int i * BUF_SIZE) = map (\<lambda>j. int j * BUF_SIZE) [i..<k - 1]"
proof (induction "k - 1 - i" arbitrary: i)
  case 0
  then have "i = k - 1" by simp
  then have "\<not> int k * BUF_SIZE - int i * BUF_SIZE > BUF_SIZE"
    using "0.prems" by (simp add: BUF_SIZE_def)
  then show ?case
    using \<open>i = k - 1\<close> by (subst loop_offsets.simps) simp
next
  case (Suc n)
  then have lt: "Suc i < k" and i: "i < k - 1" by simp_all
  have gt: "int k * BUF_SIZE - int i * BUF_SIZE > BUF_SIZE"
    using lt by (simp add: BUF_SIZE_def)
  have step: "int i * BUF_SIZE + BUF_SIZE = int (Suc i) * BUF_SIZE"
    by (simp add: algebra_simps)
  have "n = k - 1 - Suc i"
    using Suc.hyps(2) by simp
  from Suc.hyps(1) [OF this lt]
  show ?case
    using gt i by (subst loop_offsets.simps) (simp add: step upt_conv_Cons)
qed


lemma c_str_no_NUL: "CHR 0x00 \<notin> set s \<Longrightarrow> c_str s = s"
  by (auto simp: c_str_def takeWhile_eq_all_conv)


lemma example_fiber_simps [simp]:
  "self (example_fiber pool) = 7"
  "clientfd (localData (example_fiber pool)) = 5"
  "pool_ptr (localData (example_fiber pool)) = pool"
  by (simp_all add: example_fiber_def)

lemma example_machine_simps [simp]:
  "inflight (example_machine chunk) = []"
  "fdtab (example_machine chunk) = [(5, Socket_desc 0)]"
  "sock_rx (example_machine chunk) c = [chunk]"
  "sock_tx (example_machine chunk) c = []"
  "filesystem (example_machine chunk) = example_fs"
  "open_log (example_machine chunk) = []"
  "dead_bytes (example_machine chunk) a name = ''GET '' @ replicate 1020 (CHR 0x00)"
  by (simp_all add: example_machine_def)

lemma example_fs_simps [simp]:
  "example_fs ''/f'' = Some (Regular ''hello'')"
  "example_fs ''/dir'' = Some Other_inode"
  "example_fs ''/nope'' = None"
  "example_fs ''/empty'' = Some (Regular [])"
  "example_fs ''/2k'' = Some (Regular (replicate 2048 CHR ''a''))"
  by (simp_all add: example_fs_def)

lemma open_log_http_send_file:
  "open_log (machine_of (http_send_file fiber filename m)) = open_log m @ [c_str filename]"
  by (auto simp: http_send_file_def sys_open_def await_writev_def uring_op_def submit_def Let_def
      split: prod.split option.split)

lemma run_serve_example:
  assumes "chunk \<noteq> []" and "length chunk \<le> nat BUF_SIZE"
  shows "\<exists>m1. run 7 (serve (example_fiber (Some p)) (example_machine chunk)) =
            prepend [first_read (example_fiber (Some p))]
              (run 7 (serve_request (example_fiber (Some p)) chunk m1)) \<and>
          fdtab m1 = [(5, Socket_desc 0)] \<and> inflight m1 = [] \<and> filesystem m1 = example_fs \<and>
          sock_tx m1 = (\<lambda>c. []) \<and> open_log m1 = []"
  using run_serve [where fiber = "example_fiber (Some p)" and m = "example_machine chunk"
      and c = 0 and chunk = chunk and rest = "[]" and p = p] assms
  by (auto simp: example_machine_def)

lemma loop_exit_multiple:
  assumes "0 < k"
  shows "loop_exit (int k * BUF_SIZE) 0 = int (k - 1) * BUF_SIZE"
  using loop_offsets_multiple [of 0 k] assms
  by (simp add: loop_exit_def)

lemma file_ops_multiple:
  "file_ops fiber infd (int k * BUF_SIZE) =
     prep_op WRITEV fiber (clientfd (localData fiber)) (to_iov_sv (http_200_hdr (int k * BUF_SIZE))) 0 #
     concat (map (\<lambda>j. cycle_ops fiber infd (clientfd (localData fiber)) (nat BUF_SIZE)
                         (int j * BUF_SIZE)) [0..<k])"
proof (cases k)
  case 0
  have "loop_offsets 0 0 = []"
    by (subst loop_offsets.simps) (simp add: BUF_SIZE_def)
  then show ?thesis
    using 0 by (simp add: file_ops_def loop_exit_def)
next
  case (Suc n)
  then have k: "0 < k" by simp
  have offs: "loop_offsets (int k * BUF_SIZE) 0 = map (\<lambda>j. int j * BUF_SIZE) [0..<n]"
    using loop_offsets_multiple [of 0 k] Suc by simp
  have exit: "loop_exit (int k * BUF_SIZE) 0 = int n * BUF_SIZE"
    using loop_exit_multiple [OF k] Suc by simp
  have rest: "int k * BUF_SIZE - int n * BUF_SIZE = BUF_SIZE"
    using Suc by (simp add: algebra_simps)
  have gt: "int k * BUF_SIZE > int n * BUF_SIZE"
    using Suc by (simp add: BUF_SIZE_def)
  have upt: "[0..<k] = [0..<n] @ [n]"
    using Suc by simp
  show ?thesis
    using gt by (simp add: file_ops_def Let_def offs exit rest upt comp_def)
qed

lemma cycle_ops_len:
  "q \<in> set (cycle_ops fiber infd sockfd (nat BUF_SIZE) offset) \<Longrightarrow> sqe_len q = nat BUF_SIZE"
  by (auto simp: cycle_ops_def prep_fixed_op_def BUF_SIZE_def split: option.splits)

lemma digit_char_0: "digit_char 0 = CHR ''0''"
  unfolding digit_char_def by code_simp

lemma dec_nat_0: "dec_nat 0 = ''0''"
  by (subst dec_nat.simps) (simp add: digit_char_0)

lemma http_200_hdr_0:
  "http_200_hdr 0 =
     ''HTTP/1.1 200 OK'' @ CRLF @ ''Content-type: text/plain'' @ CRLF @
     ''Content-Length: 0'' @ CRLF @ CRLF"
  by (simp add: http_200_hdr_def format_int_def dec_nat_0)

subsection \<open>The invariant of the buffer pool\<close>

lemma fold_insert_set: "fold insert xs A = set xs \<union> A"
  by (induction xs arbitrary: A) auto

lemma initial_available: "available_buffers (initial_state m0) = {0..<POOL_COUNT}"
  by (simp add: initial_state_def fold_insert_set)

lemma pool_inv_initial: "pool_inv (initial_state m0)"
  by (auto simp: pool_inv_def initial_state_def fold_insert_set)

lemma pool_inv_finite: "pool_inv st \<Longrightarrow> finite (available_buffers st)"
proof -
  assume "pool_inv st"
  then have "available_buffers st \<subseteq> {0..<POOL_COUNT}"
    by (auto simp: pool_inv_def)
  then show ?thesis
    by (rule finite_subset) simp
qed

lemma acquire_buffer_Some:
  assumes "finite avail" and "avail \<noteq> {}"
  shows "acquire_buffer avail = (Some (Min avail), avail - {Min avail})"
    and "Min avail \<in> avail"
  using assms by (simp_all add: acquire_buffer_def Let_def)

lemma acquire_buffer_empty: "acquire_buffer {} = (None, {})"
  by (simp add: acquire_buffer_def)

lemma pool_inv_cleanFiber:
  assumes inv: "pool_inv st" and live: "fibers st a = Some fo"
  shows "pool_inv (cleanFiber a (fo_data fo) st)"
proof -
  let ?st = "cleanFiber a (fo_data fo) st"
  have fib: "fibers ?st = (fibers st)(a := None)" and hn: "heap_next ?st = heap_next st"
    by (simp_all add: cleanFiber_def)
  have i1: "\<And>b f. fibers st b = Some f \<Longrightarrow> b < heap_next st"
    and i4: "\<And>b f p. fibers st b = Some f \<Longrightarrow> pool_ptr (fo_data f) = Some p \<Longrightarrow> p < POOL_COUNT"
    and i2: "\<And>b c fb fc p. fibers st b = Some fb \<Longrightarrow> fibers st c = Some fc \<Longrightarrow>
        pool_ptr (fo_data fb) = Some p \<Longrightarrow> pool_ptr (fo_data fc) = Some p \<Longrightarrow> b = c"
    and i3: "\<And>p. p \<in> available_buffers st \<longleftrightarrow>
        p < POOL_COUNT \<and> (\<forall>b f. fibers st b = Some f \<longrightarrow> pool_ptr (fo_data f) \<noteq> Some p)"
    using inv unfolding pool_inv_def by blast+
  have free: "q \<in> available_buffers ?st \<longleftrightarrow>
      q < POOL_COUNT \<and> (\<forall>b f. fibers ?st b = Some f \<longrightarrow> pool_ptr (fo_data f) \<noteq> Some q)" for q
  proof (cases "pool_ptr (fo_data fo) = Some q")
    case True
    then have "q \<in> available_buffers ?st"
      by (simp add: cleanFiber_def)
    moreover have "q < POOL_COUNT"
      using i4 [OF live True] .
    moreover have "pool_ptr (fo_data f) \<noteq> Some q" if "fibers ?st b = Some f" for b f
    proof
      assume q: "pool_ptr (fo_data f) = Some q"
      from that have "b \<noteq> a" and "fibers st b = Some f"
        by (auto simp: fib split: if_splits)
      with i2 [OF this(2) live q True] show False by simp
    qed
    ultimately show ?thesis by blast
  next
    case False
    then have "q \<in> available_buffers ?st \<longleftrightarrow> q \<in> available_buffers st"
      by (auto simp: cleanFiber_def split: option.splits)
    moreover have "(\<forall>b f. fibers ?st b = Some f \<longrightarrow> pool_ptr (fo_data f) \<noteq> Some q) \<longleftrightarrow>
        (\<forall>b f. fibers st b = Some f \<longrightarrow> pool_ptr (fo_data f) \<noteq> Some q)"
      using False live by (simp add: fib) (metis option.inject)
    ultimately show ?thesis
      using i3 [of q] by simp
  qed
  show ?thesis
    unfolding pool_inv_def
  proof (intro conjI allI impI)
    fix b f assume "fibers ?st b = Some f"
    then show "b < heap_next ?st"
      using i1 [of b f] by (auto simp: fib hn split: if_splits)
  next
    fix b f p assume "fibers ?st b = Some f \<and> pool_ptr (fo_data f) = Some p"
    then show "p < POOL_COUNT"
      using i4 [of b f p] by (auto simp: fib split: if_splits)
  next
    fix b c fb fc p
    assume "fibers ?st b = Some fb \<and> fibers ?st c = Some fc \<and>
        pool_ptr (fo_data fb) = Some p \<and> pool_ptr (fo_data fc) = Some p"
    then show "b = c"
      using i2 [of b fb c fc p] by (auto simp: fib split: if_splits)
  next
    fix q show "q \<in> available_buffers ?st \<longleftrightarrow>
      q < POOL_COUNT \<and> (\<forall>b f. fibers ?st b = Some f \<longrightarrow> pool_ptr (fo_data f) \<noteq> Some q)"
      by (rule free)
  qed
qed

text \<open>The invariant does not look at the machine or at where a fiber is suspended.\<close>

lemma pool_inv_suspend:
  assumes inv: "pool_inv st" and live: "fibers st a = Some fo"
  shows "pool_inv (st\<lparr>mach := m, fibers := (fibers st)(a \<mapsto> \<lparr>fo_data = fo_data fo, fo_resume = k\<rparr>)\<rparr>)"
proof -
  let ?st = "st\<lparr>mach := m, fibers := (fibers st)(a \<mapsto> \<lparr>fo_data = fo_data fo, fo_resume = k\<rparr>)\<rparr>"
  have same: "(\<exists>f. fibers ?st b = Some f \<and> pool_ptr (fo_data f) = x) \<longleftrightarrow>
      (\<exists>f. fibers st b = Some f \<and> pool_ptr (fo_data f) = x)" for b x
    using live by auto
  have alive: "(\<exists>f. fibers ?st b = Some f) \<longleftrightarrow> (\<exists>f. fibers st b = Some f)" for b
    using live by auto
  have i1: "\<And>b. (\<exists>f. fibers st b = Some f) \<Longrightarrow> b < heap_next st"
    and i4: "\<And>b p. (\<exists>f. fibers st b = Some f \<and> pool_ptr (fo_data f) = Some p) \<Longrightarrow> p < POOL_COUNT"
    and i2: "\<And>b c p. (\<exists>f. fibers st b = Some f \<and> pool_ptr (fo_data f) = Some p) \<Longrightarrow>
        (\<exists>f. fibers st c = Some f \<and> pool_ptr (fo_data f) = Some p) \<Longrightarrow> b = c"
    and i3: "\<And>p. p \<in> available_buffers st \<longleftrightarrow>
        p < POOL_COUNT \<and> \<not> (\<exists>b. \<exists>f. fibers st b = Some f \<and> pool_ptr (fo_data f) = Some p)"
    using inv unfolding pool_inv_def by blast+
  show ?thesis
    unfolding pool_inv_def
  proof (intro conjI allI impI)
    fix b f assume "fibers ?st b = Some f"
    then have "\<exists>f. fibers st b = Some f" using alive [of b] by blast
    then show "b < heap_next ?st" using i1 by simp
  next
    fix b f p assume "fibers ?st b = Some f \<and> pool_ptr (fo_data f) = Some p"
    then have "\<exists>f. fibers st b = Some f \<and> pool_ptr (fo_data f) = Some p"
      using same [of b "Some p"] by blast
    then show "p < POOL_COUNT" by (rule i4)
  next
    fix b c fb fc p
    assume "fibers ?st b = Some fb \<and> fibers ?st c = Some fc \<and>
        pool_ptr (fo_data fb) = Some p \<and> pool_ptr (fo_data fc) = Some p"
    then have "\<exists>f. fibers st b = Some f \<and> pool_ptr (fo_data f) = Some p"
      and "\<exists>f. fibers st c = Some f \<and> pool_ptr (fo_data f) = Some p"
      using same [of b "Some p"] same [of c "Some p"] by blast+
    then show "b = c" by (rule i2)
  next
    fix q
    have "(\<forall>b f. fibers ?st b = Some f \<longrightarrow> pool_ptr (fo_data f) \<noteq> Some q) \<longleftrightarrow>
        \<not> (\<exists>b. \<exists>f. fibers st b = Some f \<and> pool_ptr (fo_data f) = Some q)"
      using same [of _ "Some q"] by blast
    then show "q \<in> available_buffers ?st \<longleftrightarrow>
      q < POOL_COUNT \<and> (\<forall>b f. fibers ?st b = Some f \<longrightarrow> pool_ptr (fo_data f) \<noteq> Some q)"
      using i3 [of q] by simp
  qed
qed

lemma pool_inv_mach [simp]: "pool_inv (st\<lparr>mach := m\<rparr>) = pool_inv st"
  by (simp add: pool_inv_def)

lemma after_next_absorb:
  "after_next a d out (st\<lparr>fibers := (fibers st)(a \<mapsto> fo)\<rparr>) = after_next a d out st"
  by (cases out) (simp_all add: after_next_def cleanFiber_def split: option.split)

lemma pool_inv_after_next:
  assumes inv: "pool_inv st" and live: "fibers st a = Some fo"
    and step: "after_next a (fo_data fo) out st = Inr st'"
  shows "pool_inv st'"
proof (cases out)
  case (Finished m)
  have "pool_inv (cleanFiber a (fo_data fo) (st\<lparr>mach := m\<rparr>))"
    by (rule pool_inv_cleanFiber) (use inv live in simp_all)
  then show ?thesis
    using step Finished by (simp add: after_next_def)
next
  case (Thrown e m)
  then show ?thesis
    using step by (simp add: after_next_def)
next
  case (Yielded m k)
  then show ?thesis
    using step pool_inv_suspend [OF inv live, where m = m and k = k] by (auto simp: after_next_def)
qed

lemma pool_inv_accept:
  assumes inv: "pool_inv st" and acq: "acquire_buffer (available_buffers st) = (pool, avail)"
  shows "pool_inv (st\<lparr>available_buffers := avail, heap_next := Suc (heap_next st),
           fibers := (fibers st)(heap_next st \<mapsto>
             \<lparr>fo_data = \<lparr>pool_start_ptr = b, pool_ptr = pool, clientfd = fd\<rparr>, fo_resume = k\<rparr>)\<rparr>)"
proof -
  let ?a = "heap_next st"
  let ?fo = "\<lparr>fo_data = \<lparr>pool_start_ptr = b, pool_ptr = pool, clientfd = fd\<rparr>, fo_resume = k\<rparr>"
  let ?st = "st\<lparr>available_buffers := avail, heap_next := Suc ?a,
           fibers := (fibers st)(?a \<mapsto> ?fo)\<rparr>"
  have i1: "\<And>c f. fibers st c = Some f \<Longrightarrow> c < heap_next st"
    and i4: "\<And>c f p. fibers st c = Some f \<Longrightarrow> pool_ptr (fo_data f) = Some p \<Longrightarrow> p < POOL_COUNT"
    and i2: "\<And>c e fc fe p. fibers st c = Some fc \<Longrightarrow> fibers st e = Some fe \<Longrightarrow>
        pool_ptr (fo_data fc) = Some p \<Longrightarrow> pool_ptr (fo_data fe) = Some p \<Longrightarrow> c = e"
    and i3: "\<And>p. p \<in> available_buffers st \<longleftrightarrow>
        p < POOL_COUNT \<and> (\<forall>c f. fibers st c = Some f \<longrightarrow> pool_ptr (fo_data f) \<noteq> Some p)"
    using inv unfolding pool_inv_def by blast+
  have fresh: "fibers st ?a = None"
    using i1 [of ?a] by (cases "fibers st ?a") auto
  have old: "fibers ?st c = Some f \<longleftrightarrow> (c = ?a \<and> f = ?fo) \<or> (c \<noteq> ?a \<and> fibers st c = Some f)" for c f
    by auto
  have pool: "(pool = None \<and> avail = available_buffers st \<and> available_buffers st = {}) \<or>
      (\<exists>p. pool = Some p \<and> p \<in> available_buffers st \<and> avail = available_buffers st - {p})"
  proof (cases "available_buffers st = {}")
    case True
    then show ?thesis using acq by (simp add: acquire_buffer_def)
  next
    case False
    then show ?thesis
      using acq acquire_buffer_Some [OF pool_inv_finite [OF inv] False] by auto
  qed
  have new_free: "\<And>p. pool = Some p \<Longrightarrow> p < POOL_COUNT \<and>
      (\<forall>c f. fibers st c = Some f \<longrightarrow> pool_ptr (fo_data f) \<noteq> Some p)"
    using pool i3 by auto
  show ?thesis
    unfolding pool_inv_def
  proof (intro conjI allI impI)
    fix c f assume "fibers ?st c = Some f"
    then show "c < heap_next ?st"
      using i1 [of c f] by (auto split: if_splits)
  next
    fix c f p assume "fibers ?st c = Some f \<and> pool_ptr (fo_data f) = Some p"
    then show "p < POOL_COUNT"
      using i4 [of c f p] new_free [of p] by (auto split: if_splits)
  next
    fix c e fc fe p
    assume "fibers ?st c = Some fc \<and> fibers ?st e = Some fe \<and>
        pool_ptr (fo_data fc) = Some p \<and> pool_ptr (fo_data fe) = Some p"
    then show "c = e"
      using i2 [of c fc e fe p] new_free [of p] by (auto split: if_splits)
  next
    fix q
    show "q \<in> available_buffers ?st \<longleftrightarrow>
      q < POOL_COUNT \<and> (\<forall>c f. fibers ?st c = Some f \<longrightarrow> pool_ptr (fo_data f) \<noteq> Some q)"
    proof -
      have held: "(\<forall>c f. fibers ?st c = Some f \<longrightarrow> pool_ptr (fo_data f) \<noteq> Some q) \<longleftrightarrow>
          pool \<noteq> Some q \<and> (\<forall>c f. fibers st c = Some f \<longrightarrow> pool_ptr (fo_data f) \<noteq> Some q)"
        using fresh by (auto split: if_splits)
      have avail: "q \<in> available_buffers ?st \<longleftrightarrow> q \<in> avail"
        by simp
      have "q \<in> avail \<longleftrightarrow> q < POOL_COUNT \<and> pool \<noteq> Some q \<and>
          (\<forall>c f. fibers st c = Some f \<longrightarrow> pool_ptr (fo_data f) \<noteq> Some q)"
        using pool
      proof
        assume "pool = None \<and> avail = available_buffers st \<and> available_buffers st = {}"
        then show ?thesis
          using i3 [of q] by simp
      next
        assume "\<exists>p. pool = Some p \<and> p \<in> available_buffers st \<and> avail = available_buffers st - {p}"
        then obtain p where "pool = Some p" "avail = available_buffers st - {p}"
          by blast
        then show ?thesis
          using i3 [of q] by auto
      qed
      then show ?thesis
        unfolding held avail by blast
    qed
  qed
qed

lemma serve_yields: "\<exists>m' k. serve fiber m = Yielded m' k"
  by (simp add: serve_def await_read_fixed_def await_readv_def uring_op_def uring_fixed_op_def
      Let_def split: option.split)

lemma pool_inv_step:
  assumes inv: "pool_inv st" and step: "loop_step ev st = Inr st'"
  shows "pool_inv st'"
proof (cases ev)
  case (Connection c)
  obtain newfd m where acc: "sys_accept c (mach st) = (newfd, m)"
    by (cases "sys_accept c (mach st)")
  obtain pool avail where acq: "acquire_buffer (available_buffers st) = (pool, avail)"
    by (cases "acquire_buffer (available_buffers st)")
  let ?a = "heap_next st"
  let ?d = "\<lparr>pool_start_ptr = 0, pool_ptr = pool, clientfd = newfd\<rparr>"
  let ?st1 = "st\<lparr>available_buffers := avail, heap_next := Suc ?a\<rparr>"
  let ?fo = "\<lparr>fo_data = ?d, fo_resume = (\<lambda>r. Finished)\<rparr>"
  let ?st2 = "?st1\<lparr>fibers := (fibers ?st1)(?a \<mapsto> ?fo)\<rparr>"
  have "after_next ?a ?d (serve \<lparr>self = ?a, localData = ?d\<rparr> m) ?st1 = Inr st'"
    using step Connection by (simp add: loop_step_def acc acq Let_def)
  moreover have "after_next ?a ?d (serve \<lparr>self = ?a, localData = ?d\<rparr> m) ?st2 =
      after_next ?a ?d (serve \<lparr>self = ?a, localData = ?d\<rparr> m) ?st1"
    using after_next_absorb [of ?a ?d "serve \<lparr>self = ?a, localData = ?d\<rparr> m" ?st1 ?fo]
    by simp
  ultimately have next2:
    "after_next ?a (fo_data ?fo) (serve \<lparr>self = ?a, localData = ?d\<rparr> m) ?st2 = Inr st'"
    by simp
  have "pool_inv ?st2"
    using pool_inv_accept [OF inv acq, of 0 newfd "\<lambda>r. Finished"] by simp
  then show ?thesis
    by (rule pool_inv_after_next [OF _ _ next2]) simp
next
  case (Completion tag res)
  show ?thesis
  proof (cases tag)
    case None
    then show ?thesis
      using step Completion inv by (simp add: loop_step_def)
  next
    case (Some a)
    then obtain fo where live: "fibers st a = Some fo"
      using step Completion by (cases "fibers st a") (simp_all add: loop_step_def)
    then obtain out where "after_next a (fo_data fo) out st = Inr st'"
      using step Completion Some by (simp add: loop_step_def Let_def)
    then show ?thesis
      by (rule pool_inv_after_next [OF inv live])
  qed
next
  case No_completion
  then show ?thesis
    using step inv by (simp add: loop_step_def)
next
  case Peek_failure
  then show ?thesis
    using step by (simp add: loop_step_def)
qed

lemma reachable_pool_inv: "reachable m0 st \<Longrightarrow> pool_inv st"
  by (induction rule: reachable.induct) (auto intro: pool_inv_initial pool_inv_step)

lemma set_map_filter_Some:
  "set (List.map_filter f xs) = {y. \<exists>x \<in> set xs. f x = Some y}"
  by (induction xs) (auto simp: map_filter_simps split: option.splits)

lemma distinct_map_filter_inj:
  assumes "distinct xs"
    and "\<And>x y z. x \<in> set xs \<Longrightarrow> y \<in> set xs \<Longrightarrow> f x = Some z \<Longrightarrow> f y = Some z \<Longrightarrow> x = y"
  shows "distinct (List.map_filter f xs)"
  using assms
proof (induction xs)
  case Nil
  show ?case by (simp add: map_filter_simps)
next
  case (Cons x xs)
  have IH: "distinct (List.map_filter f xs)"
    by (rule Cons.IH) (use Cons.prems in auto)
  show ?case
  proof (cases "f x")
    case None
    then show ?thesis using IH by (simp add: map_filter_simps)
  next
    case (Some z)
    have "z \<notin> set (List.map_filter f xs)"
    proof
      assume "z \<in> set (List.map_filter f xs)"
      then obtain y where y: "y \<in> set xs" "f y = Some z"
        by (auto simp: set_map_filter_Some)
      have "x = y"
        by (rule Cons.prems(2) [of x y z]) (use y Some in simp_all)
      then show False
        using y Cons.prems(1) by simp
    qed
    then show ?thesis using IH Some by (simp add: map_filter_simps)
  qed
qed

lemma set_leases:
  "pool_inv st \<Longrightarrow>
   set (leases st) = {p. \<exists>a fo. fibers st a = Some fo \<and> pool_ptr (fo_data fo) = Some p}"
proof -
  assume inv: "pool_inv st"
  have below: "a < heap_next st" if "fibers st a = Some fo" for a fo
    using inv that unfolding pool_inv_def by blast
  show ?thesis
  proof (rule set_eqI)
    fix p
    have "p \<in> set (leases st) \<longleftrightarrow>
        (\<exists>a<heap_next st. (case fibers st a of None \<Rightarrow> None
           | Some fo \<Rightarrow> pool_ptr (fo_data fo)) = Some p)"
      by (auto simp: leases_def set_map_filter_Some)
    also have "\<dots> \<longleftrightarrow> (\<exists>a fo. fibers st a = Some fo \<and> pool_ptr (fo_data fo) = Some p)"
    proof
      assume "\<exists>a<heap_next st. (case fibers st a of None \<Rightarrow> None
           | Some fo \<Rightarrow> pool_ptr (fo_data fo)) = Some p"
      then show "\<exists>a fo. fibers st a = Some fo \<and> pool_ptr (fo_data fo) = Some p"
        by (auto split: option.splits)
    next
      assume "\<exists>a fo. fibers st a = Some fo \<and> pool_ptr (fo_data fo) = Some p"
      then obtain a fo where live: "fibers st a = Some fo" "pool_ptr (fo_data fo) = Some p"
        by blast
      then show "\<exists>a<heap_next st. (case fibers st a of None \<Rightarrow> None
           | Some fo \<Rightarrow> pool_ptr (fo_data fo)) = Some p"
        using below [OF live(1)] by (intro exI [of _ a]) simp
    qed
    finally show "p \<in> set (leases st) \<longleftrightarrow>
        p \<in> {p. \<exists>a fo. fibers st a = Some fo \<and> pool_ptr (fo_data fo) = Some p}"
      by simp
  qed
qed

lemma pool_inv_partition:
  assumes inv: "pool_inv st"
  shows "distinct (leases st)"
    and "set (leases st) \<inter> available_buffers st = {}"
    and "set (leases st) \<union> available_buffers st = {0..<POOL_COUNT}"
proof -
  have i4: "\<And>c f p. fibers st c = Some f \<Longrightarrow> pool_ptr (fo_data f) = Some p \<Longrightarrow> p < POOL_COUNT"
    and i2: "\<And>c e fc fe p. fibers st c = Some fc \<Longrightarrow> fibers st e = Some fe \<Longrightarrow>
        pool_ptr (fo_data fc) = Some p \<Longrightarrow> pool_ptr (fo_data fe) = Some p \<Longrightarrow> c = e"
    and i3: "\<And>p. p \<in> available_buffers st \<longleftrightarrow>
        p < POOL_COUNT \<and> (\<forall>c f. fibers st c = Some f \<longrightarrow> pool_ptr (fo_data f) \<noteq> Some p)"
    using inv unfolding pool_inv_def by blast+
  show "distinct (leases st)"
    unfolding leases_def
  proof (rule distinct_map_filter_inj)
    show "distinct [0..<heap_next st]" by simp
  next
    fix x y z
    assume "(case fibers st x of None \<Rightarrow> None | Some fo \<Rightarrow> pool_ptr (fo_data fo)) = Some z"
      and "(case fibers st y of None \<Rightarrow> None | Some fo \<Rightarrow> pool_ptr (fo_data fo)) = Some z"
    then obtain fx fy where "fibers st x = Some fx" "pool_ptr (fo_data fx) = Some z"
      "fibers st y = Some fy" "pool_ptr (fo_data fy) = Some z"
      by (auto split: option.splits)
    then show "x = y" using i2 [of x fx y fy z] by simp
  qed
  show "set (leases st) \<inter> available_buffers st = {}"
    using i3 by (auto simp: set_leases [OF inv])
  show "set (leases st) \<union> available_buffers st = {0..<POOL_COUNT}"
  proof (rule set_eqI)
    fix p
    show "p \<in> set (leases st) \<union> available_buffers st \<longleftrightarrow> p \<in> {0..<POOL_COUNT}"
      using i3 [of p] i4 [of _ _ p] by (auto simp: set_leases [OF inv])
  qed
qed

lemma loop_step_Connection:
  assumes "serve \<lparr>self = heap_next st, localData = d\<rparr> (snd (sys_accept c (mach st))) = Yielded M K"
    and "d = \<lparr>pool_start_ptr = 0, pool_ptr = fst (acquire_buffer (available_buffers st)),
              clientfd = fst (sys_accept c (mach st))\<rparr>"
  shows "loop_step (Connection c) st =
           Inr (st\<lparr>mach := M,
                   available_buffers := snd (acquire_buffer (available_buffers st)),
                   fibers := (fibers st)(heap_next st \<mapsto> \<lparr>fo_data = d, fo_resume = K\<rparr>),
                   heap_next := Suc (heap_next st)\<rparr>)"
proof -
  obtain newfd m where acc: "sys_accept c (mach st) = (newfd, m)"
    by (cases "sys_accept c (mach st)")
  obtain pool avail where acq: "acquire_buffer (available_buffers st) = (pool, avail)"
    by (cases "acquire_buffer (available_buffers st)")
  show ?thesis
    using assms by (simp add: loop_step_def after_next_def Let_def acc acq)
qed

lemma Min_pool: "Min {0..<POOL_COUNT} = 0"
  by (rule Min_eqI) (auto simp: POOL_COUNT_def)

lemma acquire_buffer_initial:
  "acquire_buffer {0..<POOL_COUNT} = (Some 0, {1..<POOL_COUNT})"
proof -
  have "{0..<POOL_COUNT} - {0} = {1..<POOL_COUNT}"
    by auto
  moreover have "{0..<POOL_COUNT} \<noteq> {}"
    by (simp add: POOL_COUNT_def)
  ultimately show ?thesis
    using acquire_buffer_Some(1) [of "{0..<POOL_COUNT}"] by (simp add: Min_pool)
qed

lemma connection_step_acquires:
  assumes inv: "pool_inv st" and ne: "available_buffers st \<noteq> {}"
  shows "\<exists>st' fo. loop_step (Connection c) st = Inr st' \<and>
           fibers st' (heap_next st) = Some fo \<and>
           pool_ptr (fo_data fo) = Some (Min (available_buffers st)) \<and>
           available_buffers st' = available_buffers st - {Min (available_buffers st)}"
proof -
  note acq = acquire_buffer_Some [OF pool_inv_finite [OF inv] ne]
  define d where "d = \<lparr>pool_start_ptr = 0, pool_ptr = fst (acquire_buffer (available_buffers st)),
              clientfd = fst (sys_accept c (mach st))\<rparr>"
  obtain M K where
    "serve \<lparr>self = heap_next st, localData = d\<rparr> (snd (sys_accept c (mach st))) = Yielded M K"
    using serve_yields by blast
  note step = loop_step_Connection [OF this d_def]
  define st' where "st' = st\<lparr>mach := M,
      available_buffers := snd (acquire_buffer (available_buffers st)),
      fibers := (fibers st)(heap_next st \<mapsto> \<lparr>fo_data = d, fo_resume = K\<rparr>),
      heap_next := Suc (heap_next st)\<rparr>"
  have "loop_step (Connection c) st = Inr st'"
    using step by (simp only: st'_def)
  moreover have "fibers st' (heap_next st) = Some \<lparr>fo_data = d, fo_resume = K\<rparr>"
    by (simp add: st'_def)
  moreover have "pool_ptr (fo_data \<lparr>fo_data = d, fo_resume = K\<rparr>) = Some (Min (available_buffers st))"
    by (simp add: d_def acq(1))
  moreover have "available_buffers st' = available_buffers st - {Min (available_buffers st)}"
    by (simp add: st'_def acq(1))
  ultimately show ?thesis
    by blast
qed

subsection \<open>A run is the event loop reaping the fiber's completions\<close>

text \<open>
  One step of \<open>run\<close> resumes the fiber exactly as the event loop does when it reaps the
  completion of the fiber's operation with the result of a full transfer.
\<close>

lemma loop_step_Completion_like_run:
  assumes live: "fibers st a = Some fo"
    and pending: "take_pending a (inflight (mach st)) = Some (q, rest)"
    and res: "res = full_result q (mach st)"
    and m': "m' = kernel_complete q res ((mach st)\<lparr>inflight := rest\<rparr>)"
  shows "loop_step (Completion (Some a) res) st = after_next a (fo_data fo) (fo_resume fo res m') st"
    and "run a (Yielded (mach st) (fo_resume fo)) = prepend [q] (run a (fo_resume fo res m'))"
  using assms by (simp_all add: loop_step_def Let_def prepend_def split: prod.split)

subsection \<open>The decimal digits of the length\<close>











lemma http_200_hdr_5:
  "http_200_hdr 5 =
     ''HTTP/1.1 200 OK'' @ [CHR 0x0D, CHR 0x0A] @ ''Content-type: text/plain'' @
     [CHR 0x0D, CHR 0x0A] @ ''Content-Length: 5'' @ [CHR 0x0D, CHR 0x0A, CHR 0x0D, CHR 0x0A]"
  by code_simp

lemma http_404_hdr_bytes:
  "http_404_hdr =
     ''HTTP/1.1 404 Not Found'' @ [CHR 0x0D, CHR 0x0A] @ ''Content-Length: 0'' @
     [CHR 0x0D, CHR 0x0A, CHR 0x0D, CHR 0x0A]"
  by (simp add: http_404_hdr_def CRLF_def)

text \<open>Two runs on the example machine, for the statements that follow.\<close>

lemma run_serve_example_200:
  assumes get: "take 3 chunk = ''GET''" "4 \<le> length chunk" "length chunk \<le> nat BUF_SIZE"
    and target: "request_target chunk = ''/f''"
  shows "\<exists>ops m'.
      run 7 (serve (example_fiber (Some p)) (example_machine chunk)) = (ops, Finished m') \<and>
      sock_tx m' 0 = http_200_hdr 5 @ ''hello''"
proof -
  let ?fiber = "example_fiber (Some p)"
  have ne: "chunk \<noteq> []"
    using get(2) by auto
  obtain m1 where
    first: "run 7 (serve ?fiber (example_machine chunk)) =
        prepend [first_read ?fiber] (run 7 (serve_request ?fiber chunk m1))"
    and m1: "fdtab m1 = [(5, Socket_desc 0)]" "inflight m1 = []" "filesystem m1 = example_fs"
      "sock_tx m1 = (\<lambda>c. [])"
    using run_serve_example [OF ne get(3), of p] by auto
  have req: "serve_request ?fiber chunk m1 = http_send_file ?fiber ''/f'' m1"
    using serve_request_GET [OF get] by (simp add: target)
  have "c_str ''/f'' = ''/f''"
    by (simp add: c_str_def)
  then obtain m' where
    "run 7 (http_send_file ?fiber ''/f'' m1) =
        (file_ops ?fiber (fresh_fd (fdtab m1)) 5, Finished m')"
    and "sock_tx m' 0 = http_200_hdr 5 @ ''hello''"
    using run_http_send_file_200 [where fiber = ?fiber and m = m1 and c = 0
        and filename = "''/f''" and content = "''hello''"]
    by (auto simp: m1)
  then show ?thesis
    by (simp add: first req prepend_def)
qed

subsection \<open>Connections accepted while nothing completes\<close>

lemma take_pending_None:
  "\<forall>q \<in> set qs. sqe_user_data q \<noteq> a \<Longrightarrow> take_pending a qs = None"
  by (induction qs) simp_all

lemma serve_yields_submit:
  "\<exists>q k. serve fiber m = Yielded (submit q m) k \<and> sqe_user_data q = self fiber"
proof (cases "pool_ptr (localData fiber)")
  case None
  then show ?thesis
    by (auto simp: serve_def await_readv_def uring_op_def Let_def
        intro!: exI [of _ "prep_op READV fiber (clientfd (localData fiber))
          (to_iov_array (Stack_array (self fiber) ''buffer'')) 0"])
next
  case (Some p)
  then show ?thesis
    by (auto simp: serve_def await_read_fixed_def uring_fixed_op_def Let_def
        intro!: exI [of _ "prep_fixed_op READ_FIXED fiber (clientfd (localData fiber)) 0 0"])
       (simp add: prep_fixed_op_def)
qed

text \<open>
  While connections are accepted and no completion is reaped, sockets, files and dead
  storage stay as they were, and every operation in flight belongs to a fiber that
  exists.
\<close>

lemma connection_step_quiet:
  assumes tags: "\<forall>q \<in> set (inflight (mach st)). sqe_user_data q < heap_next st"
  shows "\<exists>st' fo. loop_step (Connection c) st = Inr st' \<and>
           fibers st' (heap_next st) = Some fo \<and>
           fo_data fo = \<lparr>pool_start_ptr = 0, pool_ptr = fst (acquire_buffer (available_buffers st)),
              clientfd = fst (sys_accept c (mach st))\<rparr> \<and>
           Yielded (mach st') (fo_resume fo) =
             serve \<lparr>self = heap_next st, localData = fo_data fo\<rparr> (snd (sys_accept c (mach st))) \<and>
           available_buffers st' = snd (acquire_buffer (available_buffers st)) \<and>
           heap_next st' = Suc (heap_next st) \<and>
           sock_rx (mach st') = sock_rx (mach st) \<and> sock_tx (mach st') = sock_tx (mach st) \<and>
           filesystem (mach st') = filesystem (mach st) \<and>
           dead_bytes (mach st') = dead_bytes (mach st) \<and>
           (\<forall>q \<in> set (inflight (mach st')). sqe_user_data q < heap_next st')"
proof -
  define d where "d = \<lparr>pool_start_ptr = 0, pool_ptr = fst (acquire_buffer (available_buffers st)),
              clientfd = fst (sys_accept c (mach st))\<rparr>"
  define m1 where "m1 = snd (sys_accept c (mach st))"
  obtain q K where
    yield: "serve \<lparr>self = heap_next st, localData = d\<rparr> m1 = Yielded (submit q m1) K"
    and tag: "sqe_user_data q = heap_next st"
    using serve_yields_submit [of "\<lparr>self = heap_next st, localData = d\<rparr>" m1] by auto
  note step = loop_step_Connection [OF yield [unfolded m1_def] d_def]
  define st' where "st' = st\<lparr>mach := submit q m1,
      available_buffers := snd (acquire_buffer (available_buffers st)),
      fibers := (fibers st)(heap_next st \<mapsto> \<lparr>fo_data = d, fo_resume = K\<rparr>),
      heap_next := Suc (heap_next st)\<rparr>"
  have m1: "sock_rx m1 = sock_rx (mach st)" "sock_tx m1 = sock_tx (mach st)"
    "filesystem m1 = filesystem (mach st)" "dead_bytes m1 = dead_bytes (mach st)"
    "inflight m1 = inflight (mach st)"
    by (simp_all add: m1_def sys_accept_def Let_def)
  have "loop_step (Connection c) st = Inr st'"
    using step by (simp only: st'_def m1_def)
  moreover have "fibers st' (heap_next st) = Some \<lparr>fo_data = d, fo_resume = K\<rparr>"
    by (simp add: st'_def)
  moreover have "Yielded (mach st') K = serve \<lparr>self = heap_next st, localData = d\<rparr> m1"
    by (simp add: st'_def yield)
  moreover have "\<forall>q \<in> set (inflight (mach st')). sqe_user_data q < heap_next st'"
    using tags tag by (auto simp: st'_def submit_def m1 less_Suc_eq)
  ultimately show ?thesis
    by (intro exI [of _ st'] exI [of _ "\<lparr>fo_data = d, fo_resume = K\<rparr>"])
       (simp add: d_def m1_def [symmetric], simp add: st'_def submit_def m1)
qed

lemma quiet_pool_exhaustion:
  assumes "reachable m0 st"
    and "sock_rx (mach st) = sock_rx m0" "sock_tx (mach st) = sock_tx m0"
    and "filesystem (mach st) = filesystem m0" "dead_bytes (mach st) = dead_bytes m0"
    and "\<forall>q \<in> set (inflight (mach st)). sqe_user_data q < heap_next st"
    and "card (available_buffers st) = n"
  shows "\<exists>st'. reachable m0 st' \<and> available_buffers st' = {} \<and>
           sock_rx (mach st') = sock_rx m0 \<and> sock_tx (mach st') = sock_tx m0 \<and>
           filesystem (mach st') = filesystem m0 \<and> dead_bytes (mach st') = dead_bytes m0 \<and>
           (\<forall>q \<in> set (inflight (mach st')). sqe_user_data q < heap_next st')"
  using assms
proof (induction n arbitrary: st)
  case 0
  then have "available_buffers st = {}"
    using pool_inv_finite [OF reachable_pool_inv [OF "0.prems"(1)]] by simp
  then show ?case
    using "0.prems" by blast
next
  case (Suc n)
  have inv: "pool_inv st"
    using Suc.prems(1) by (rule reachable_pool_inv)
  have fin: "finite (available_buffers st)"
    using inv by (rule pool_inv_finite)
  have ne: "available_buffers st \<noteq> {}"
    using Suc.prems(7) by auto
  obtain st1 where step: "loop_step (Connection (Suc n)) st = Inr st1"
    and avail: "available_buffers st1 = snd (acquire_buffer (available_buffers st))"
    and quiet: "sock_rx (mach st1) = sock_rx (mach st)" "sock_tx (mach st1) = sock_tx (mach st)"
      "filesystem (mach st1) = filesystem (mach st)" "dead_bytes (mach st1) = dead_bytes (mach st)"
      "\<forall>q \<in> set (inflight (mach st1)). sqe_user_data q < heap_next st1"
    using connection_step_quiet [OF Suc.prems(6), of "Suc n"] by blast
  have avail': "available_buffers st1 = available_buffers st - {Min (available_buffers st)}"
    using acquire_buffer_Some [OF fin ne] by (simp add: avail)
  have "reachable m0 st1"
    using Suc.prems(1) step by (rule reachable_step)
  moreover have "card (available_buffers st1) = n"
    using Suc.prems(7) fin ne by (simp add: avail')
  ultimately show ?case
    using quiet Suc.prems(2-5) by (intro Suc.IH) simp_all
qed

section \<open>The claims\<close>

text \<open>
  C8. A first read chunk of exactly the three bytes \<open>GET\<close> passes the prefix comparison
  of \<^verbatim>\<open>serve\<close>; the extraction \<^verbatim>\<open>substr(4, ...)\<close> is then applied to a view of length
  3, its precondition does not hold, and \<^verbatim>\<open>std::out_of_range\<close> leaves the fiber body.
\<close>

theorem serve_three_byte_GET_out_of_range:
  "sv_compare ''GET'' 0 3 ''GET'' = Inr 0 \<and>
   length ''GET'' < 4 \<and>
   sv_substr ''GET'' 4 (size_sub (sv_find ''GET'' CHR '' '' 4) 4) = Inl Out_of_range \<and>
   serve_request fiber ''GET'' m = Thrown Out_of_range m"
  by (simp add: sv_compare_def sv_substr_def serve_request_def)

text \<open>
  C4. Each of the four awaited operations, resumed with a completion result \<open>res\<close>,
  throws the \<^verbatim>\<open>panic\<close> exception when \<open>res \<le> 0\<close> and hands a positive \<open>res\<close> to the rest
  of the body unchanged. The event loop does not catch the exception: a completion with
  \<open>res \<le> 0\<close> for a fiber suspended in such an operation ends the whole loop, and so it
  does for the first read of a connection that was just accepted.
\<close>

theorem awaited_nonpositive_result_aborts_process:
  "resume_with (await_readv fiber fd iov offset k m) res m' =
     (if res \<le> 0 then Thrown (System_error ''readv'') m' else k res m') \<and>
   resume_with (await_writev fiber fd iov offset k m) res m' =
     (if res \<le> 0 then Thrown (System_error ''writev'') m' else k res m') \<and>
   resume_with (await_read_fixed fiber fd nbyte offset k m) res m' =
     (if res \<le> 0 then Thrown (System_error ''read_fixed'') m' else k res m') \<and>
   resume_with (await_write_fixed fiber fd nbyte offset k m) res m' =
     (if res \<le> 0 then Thrown (System_error ''write_fixed'') m' else k res m') \<and>
   (res \<le> 0 \<longrightarrow>
      loop_step (Completion (Some a) res)
        (st\<lparr>fibers := (fibers st)(a \<mapsto> \<lparr>fo_data = d, fo_resume = await_result operation k\<rparr>)\<rparr>) =
      Inl (System_error operation)) \<and>
   (res \<le> 0 \<longrightarrow>
      (\<exists>st1 operation. loop_step (Connection c) st = Inr st1 \<and>
         loop_step (Completion (Some (heap_next st)) res) st1 = Inl (System_error operation)))"
  by (simp add: await_readv_def await_writev_def await_read_fixed_def await_write_fixed_def
      uring_op_def uring_fixed_op_def await_result_def panic_def loop_step_def after_next_def
      serve_def sys_accept_def acquire_buffer_def Let_def
      split: option.split prod.split)

theorem awaited_nonpositive_result_aborts_process_witness:
  "loop_step (Completion (Some 3) (- 104))
     ((initial_state (example_machine ''''))\<lparr>fibers := (fibers (initial_state (example_machine '''')))
        (3 \<mapsto> \<lparr>fo_data = localData (example_fiber None),
                fo_resume = await_result ''writev'' (\<lambda>r. Finished)\<rparr>)\<rparr>) =
   Inl (System_error ''writev'') \<and>
   (\<exists>st1 operation.
      loop_step (Connection 0) (initial_state (example_machine '''')) = Inr st1 \<and>
      loop_step (Completion (Some 0) 0) st1 = Inl (System_error operation))"
proof -
  have hn: "heap_next (initial_state (example_machine '''')) = 0"
    by (simp add: initial_state_def)
  note T = awaited_nonpositive_result_aborts_process
    [of "example_fiber None" 5 "(Null_region, 0)" 0 "\<lambda>r. Finished" "example_machine ''''"
        _ "example_machine ''''" 0 3 "initial_state (example_machine '''')"
        "localData (example_fiber None)" "''writev''" 0]
  have a: "loop_step (Completion (Some 3) (- 104))
     ((initial_state (example_machine ''''))\<lparr>fibers := (fibers (initial_state (example_machine '''')))
        (3 \<mapsto> \<lparr>fo_data = localData (example_fiber None),
                fo_resume = await_result ''writev'' (\<lambda>r. Finished)\<rparr>)\<rparr>) =
      Inl (System_error ''writev'')"
    using T [of "- 104", THEN conjunct2, THEN conjunct2, THEN conjunct2, THEN conjunct2,
        THEN conjunct1]
    by simp
  have b: "\<exists>st1 operation.
      loop_step (Connection 0) (initial_state (example_machine '''')) = Inr st1 \<and>
      loop_step (Completion (Some 0) 0) st1 = Inl (System_error operation)"
    using T [of 0, THEN conjunct2, THEN conjunct2, THEN conjunct2, THEN conjunct2,
        THEN conjunct2]
    by (simp only: hn)
  show ?thesis
    using a b by (rule conjI)
qed





text \<open>
  C2. The chunk \<open>GETX/f\<close> followed by a space does not begin with the four bytes \<open>GET\<close> and
  a space. A fiber with a pool slot answers it with the 200 header and the five bytes of
  the file \<open>/f\<close>, not with the 400 response. Line 161 compares three bytes and line 163
  takes the target from index 4 on: the byte at index 3 is never looked at, while the
  comments of lines 160 and 167 say that only GET requests are handled and that other
  requests are answered with 400.
\<close>

theorem byte_after_GET_never_checked:
  "take 4 ''GETX/f '' \<noteq> ''GET '' \<and>
   (\<exists>ops m'.
      run 7 (serve (example_fiber (Some 3)) (example_machine ''GETX/f '')) = (ops, Finished m') \<and>
      sock_tx m' 0 =
        ''HTTP/1.1 200 OK'' @ [CHR 0x0D, CHR 0x0A] @ ''Content-type: text/plain'' @
        [CHR 0x0D, CHR 0x0A] @ ''Content-Length: 5'' @
        [CHR 0x0D, CHR 0x0A, CHR 0x0D, CHR 0x0A] @ ''hello'' \<and>
      sock_tx m' 0 \<noteq> http_400_hdr)"
proof -
  have "request_target ''GETX/f '' = ''/f''"
    by (simp add: request_target_def)
  then obtain ops m' where
    run: "run 7 (serve (example_fiber (Some 3)) (example_machine ''GETX/f '')) =
        (ops, Finished m')"
    and tx: "sock_tx m' 0 = http_200_hdr 5 @ ''hello''"
    using run_serve_example_200 [of "''GETX/f ''" 3] by (auto simp: BUF_SIZE_def)
  have "sock_tx m' 0 \<noteq> http_400_hdr"
    by (simp add: tx http_200_hdr_5 http_400_hdr_def)
  then show ?thesis
    using run tx unfolding http_200_hdr_5 by auto
qed

text \<open>
  C9, as the code has it. For a first chunk of at least four bytes that begins with
  \<open>GET\<close>, the path handed to \<^verbatim>\<open>open\<close> is the target (the bytes from index 4 up to the next
  space) as a C string, that is, up to its first NUL byte; it is the whole target when
  the target has no NUL byte. Nothing is prefixed, normalised or rejected.
\<close>

theorem opened_path_is_target_as_C_string:
  assumes "take 3 chunk = ''GET''" and "4 \<le> length chunk" and "length chunk \<le> nat BUF_SIZE"
  shows "open_log (machine_of (serve_request fiber chunk m)) =
           open_log m @ [c_str (request_target chunk)] \<and>
         (CHR 0x00 \<notin> set (request_target chunk) \<longrightarrow>
            open_log (machine_of (serve_request fiber chunk m)) =
              open_log m @ [request_target chunk])"
  using assms by (simp add: serve_request_GET open_log_http_send_file c_str_no_NUL)

theorem opened_path_is_target_as_C_string_witness:
  "open_log (machine_of (serve_request (example_fiber (Some 3)) ''GET /../etc/passwd HTTP/1.1''
      (example_machine ''''))) = [''/../etc/passwd'']"
proof -
  have target: "request_target ''GET /../etc/passwd HTTP/1.1'' = ''/../etc/passwd''"
    by (simp add: request_target_def)
  show ?thesis
    using opened_path_is_target_as_C_string
      [where chunk = "''GET /../etc/passwd HTTP/1.1''" and fiber = "example_fiber (Some 3)"
         and m = "example_machine ''''"]
    by (simp add: target BUF_SIZE_def c_str_def)
qed

theorem opened_path_equals_target_counterexample:
  "open_log (machine_of (serve_request (example_fiber None) [CHR ''G'', CHR ''E'', CHR ''T'', CHR '' '', CHR ''/'', CHR ''f'', CHR 0x00,
       CHR ''x'', CHR '' '']
      (example_machine ''''))) = [''/f''] \<and>
   request_target [CHR ''G'', CHR ''E'', CHR ''T'', CHR '' '', CHR ''/'', CHR ''f'', CHR 0x00,
       CHR ''x'', CHR '' ''] = [CHR ''/'', CHR ''f'', CHR 0x00, CHR ''x''] \<and>
   ''/f'' \<noteq> [CHR ''/'', CHR ''f'', CHR 0x00, CHR ''x'']"
proof -
  have target: "request_target [CHR ''G'', CHR ''E'', CHR ''T'', CHR '' '', CHR ''/'', CHR ''f'', CHR 0x00,
       CHR ''x'', CHR '' ''] = [CHR ''/'', CHR ''f'', CHR 0x00, CHR ''x'']"
    by (simp add: request_target_def)
  have "serve_request (example_fiber None) [CHR ''G'', CHR ''E'', CHR ''T'', CHR '' '', CHR ''/'', CHR ''f'', CHR 0x00,
       CHR ''x'', CHR '' ''] (example_machine '''') =
      http_send_file (example_fiber None) [CHR ''/'', CHR ''f'', CHR 0x00, CHR ''x''] (example_machine '''')"
    using serve_request_GET [of "[CHR ''G'', CHR ''E'', CHR ''T'', CHR '' '', CHR ''/'', CHR ''f'', CHR 0x00,
       CHR ''x'', CHR '' '']" "example_fiber None"
        "example_machine ''''"]
    by (simp add: target BUF_SIZE_def)
  then show ?thesis
    by (simp add: open_log_http_send_file target c_str_def)
qed

text \<open>
  C7. For a file of \<open>k\<close> times \<^verbatim>\<open>BUF_SIZE\<close> bytes, the operations of \<^verbatim>\<open>http_send_file\<close> are
  the write of the header followed by exactly \<open>k\<close> cycles, each a read of \<^verbatim>\<open>BUF_SIZE\<close>
  bytes at the next multiple of \<^verbatim>\<open>BUF_SIZE\<close> and a write of \<^verbatim>\<open>BUF_SIZE\<close> bytes; no operation
  has length zero. For \<open>k = 0\<close> the write of the header, which announces
  \<open>Content-Length: 0\<close>, is the only operation and nothing else is sent.
\<close>

theorem exact_multiple_takes_k_cycles:
  assumes idle: "take_pending (self fiber) (inflight m) = None"
    and sock: "map_of (fdtab m) (clientfd (localData fiber)) = Some (Socket_desc c)"
    and reg: "filesystem m (c_str filename) = Some (Regular content)"
    and size: "length content = k * nat BUF_SIZE"
  shows "fst (run (self fiber) (http_send_file fiber filename m)) =
           prep_op WRITEV fiber (clientfd (localData fiber))
             (to_iov_sv (http_200_hdr (int (length content)))) 0 #
           concat (map (\<lambda>j. cycle_ops fiber (fresh_fd (fdtab m)) (clientfd (localData fiber))
                               (nat BUF_SIZE) (int j * BUF_SIZE)) [0..<k]) \<and>
         (\<forall>q \<in> set (fst (run (self fiber) (http_send_file fiber filename m))). 0 < sqe_len q) \<and>
         (k = 0 \<longrightarrow>
            fst (run (self fiber) (http_send_file fiber filename m)) =
              [prep_op WRITEV fiber (clientfd (localData fiber)) (to_iov_sv (http_200_hdr 0)) 0] \<and>
            sock_tx (machine_of (snd (run (self fiber) (http_send_file fiber filename m)))) c =
              sock_tx m c @ ''HTTP/1.1 200 OK'' @ CRLF @ ''Content-type: text/plain'' @ CRLF @
                ''Content-Length: 0'' @ CRLF @ CRLF)"
proof -
  have stsize: "int (length content) = int k * BUF_SIZE"
    by (simp add: size BUF_SIZE_def)
  obtain m' where
    run: "run (self fiber) (http_send_file fiber filename m) =
        (file_ops fiber (fresh_fd (fdtab m)) (int (length content)), Finished m')"
    and tx: "sock_tx m' c = sock_tx m c @ http_200_hdr (int (length content)) @ content"
    using run_http_send_file_200 [OF idle sock reg] by blast
  have ops: "fst (run (self fiber) (http_send_file fiber filename m)) =
           prep_op WRITEV fiber (clientfd (localData fiber))
             (to_iov_sv (http_200_hdr (int (length content)))) 0 #
           concat (map (\<lambda>j. cycle_ops fiber (fresh_fd (fdtab m)) (clientfd (localData fiber))
                               (nat BUF_SIZE) (int j * BUF_SIZE)) [0..<k])"
    by (simp add: run stsize file_ops_multiple)
  have pos: "0 < sqe_len q"
    if "q \<in> set (fst (run (self fiber) (http_send_file fiber filename m)))" for q
  proof -
    from that consider
      "q = prep_op WRITEV fiber (clientfd (localData fiber))
             (to_iov_sv (http_200_hdr (int (length content)))) 0"
      | j where "q \<in> set (cycle_ops fiber (fresh_fd (fdtab m)) (clientfd (localData fiber))
                               (nat BUF_SIZE) (int j * BUF_SIZE))"
      unfolding ops by auto
    then show ?thesis
    proof cases
      case 1
      then show ?thesis
        using http_200_hdr_nonempty [of "int (length content)"] by (simp add: to_iov_sv_def)
    next
      case 2
      then show ?thesis
        using cycle_ops_len [OF 2] by (simp add: BUF_SIZE_def)
    qed
  qed
  have zero: "fst (run (self fiber) (http_send_file fiber filename m)) =
              [prep_op WRITEV fiber (clientfd (localData fiber)) (to_iov_sv (http_200_hdr 0)) 0] \<and>
            sock_tx (machine_of (snd (run (self fiber) (http_send_file fiber filename m)))) c =
              sock_tx m c @ ''HTTP/1.1 200 OK'' @ CRLF @ ''Content-type: text/plain'' @ CRLF @
                ''Content-Length: 0'' @ CRLF @ CRLF"
    if "k = 0"
  proof -
    have "content = []"
      using size that by simp
    then show ?thesis
      using ops that by (simp add: run tx http_200_hdr_0)
  qed
  show ?thesis
    using ops pos zero by blast
qed

theorem exact_multiple_takes_k_cycles_witness:
  "fst (run 7 (http_send_file (example_fiber (Some 3)) ''/2k'' (example_machine ''''))) =
     prep_op WRITEV (example_fiber (Some 3)) 5 (to_iov_sv (http_200_hdr 2048)) 0 #
     cycle_ops (example_fiber (Some 3)) 6 5 1024 0 @
     cycle_ops (example_fiber (Some 3)) 6 5 1024 1024 \<and>
   fst (run 7 (http_send_file (example_fiber None) ''/empty'' (example_machine ''''))) =
     [prep_op WRITEV (example_fiber None) 5 (to_iov_sv (http_200_hdr 0)) 0]"
proof -
  have paths: "c_str ''/2k'' = ''/2k''" "c_str ''/empty'' = ''/empty''"
    by (simp_all add: c_str_def)
  have upt: "[0..<2] = [0, Suc 0]"
    by (simp add: numeral_2_eq_2)
  have fd: "fresh_fd [(5, Socket_desc 0)] = 6"
    by (simp add: fresh_fd_def)
  show ?thesis
    using exact_multiple_takes_k_cycles
        [where fiber = "example_fiber (Some 3)" and m = "example_machine ''''" and c = 0
           and filename = "''/2k''" and content = "replicate 2048 CHR ''a''" and k = 2]
      exact_multiple_takes_k_cycles
        [where fiber = "example_fiber None" and m = "example_machine ''''" and c = 0
           and filename = "''/empty''" and content = "[]" and k = 0]
    by (simp add: paths upt fd BUF_SIZE_def)
qed

text \<open>
  C3. In every state the event loop can reach, the slots leased to live fibers and the
  free set are disjoint, together they are the 12 slots of the pool, and no slot is
  leased twice. The slot acquired on accept comes from the free set, is held by no live
  fiber and is no longer free afterwards; after the cleanup of a live fiber the partition
  holds again, with the fiber's slot (if it had one) back in the free set, where it was
  not before.
\<close>

theorem pool_slots_partitioned:
  assumes "reachable m0 st"
  shows "distinct (leases st) \<and>
         set (leases st) \<inter> available_buffers st = {} \<and>
         set (leases st) \<union> available_buffers st = {0..<POOL_COUNT} \<and>
         (\<forall>a fo. fibers st a = Some fo \<longrightarrow> a < heap_next st) \<and>
         (\<forall>p. fst (acquire_buffer (available_buffers st)) = Some p \<longrightarrow>
            p \<in> available_buffers st \<and> p \<notin> set (leases st) \<and>
            p \<notin> snd (acquire_buffer (available_buffers st))) \<and>
         (\<forall>a fo. fibers st a = Some fo \<longrightarrow>
            distinct (leases (cleanFiber a (fo_data fo) st)) \<and>
            set (leases (cleanFiber a (fo_data fo) st)) \<inter>
              available_buffers (cleanFiber a (fo_data fo) st) = {} \<and>
            set (leases (cleanFiber a (fo_data fo) st)) \<union>
              available_buffers (cleanFiber a (fo_data fo) st) = {0..<POOL_COUNT} \<and>
            (\<forall>p. pool_ptr (fo_data fo) = Some p \<longrightarrow>
               p \<in> available_buffers (cleanFiber a (fo_data fo) st) \<and>
               p \<notin> available_buffers st))"
proof -
  have inv: "pool_inv st"
    using assms by (rule reachable_pool_inv)
  note part = pool_inv_partition [OF inv]
  have below: "\<forall>a fo. fibers st a = Some fo \<longrightarrow> a < heap_next st"
    using inv unfolding pool_inv_def by blast
  have acquire: "p \<in> available_buffers st \<and> p \<notin> set (leases st) \<and>
      p \<notin> snd (acquire_buffer (available_buffers st))"
    if "fst (acquire_buffer (available_buffers st)) = Some p" for p
  proof -
    have ne: "available_buffers st \<noteq> {}"
      using that by (auto simp: acquire_buffer_def)
    from acquire_buffer_Some [OF pool_inv_finite [OF inv] ne] that
    have "p \<in> available_buffers st" "p \<notin> snd (acquire_buffer (available_buffers st))"
      by auto
    then show ?thesis
      using part(2) by auto
  qed
  have cleanup: "distinct (leases (cleanFiber a (fo_data fo) st)) \<and>
            set (leases (cleanFiber a (fo_data fo) st)) \<inter>
              available_buffers (cleanFiber a (fo_data fo) st) = {} \<and>
            set (leases (cleanFiber a (fo_data fo) st)) \<union>
              available_buffers (cleanFiber a (fo_data fo) st) = {0..<POOL_COUNT} \<and>
            (\<forall>p. pool_ptr (fo_data fo) = Some p \<longrightarrow>
               p \<in> available_buffers (cleanFiber a (fo_data fo) st) \<and>
               p \<notin> available_buffers st)"
    if live: "fibers st a = Some fo" for a fo
  proof -
    have "pool_inv (cleanFiber a (fo_data fo) st)"
      using inv live by (rule pool_inv_cleanFiber)
    note part' = pool_inv_partition [OF this]
    have "p \<in> available_buffers (cleanFiber a (fo_data fo) st) \<and> p \<notin> available_buffers st"
      if "pool_ptr (fo_data fo) = Some p" for p
    proof -
      have "p \<in> set (leases st)"
        using live that by (auto simp: set_leases [OF inv])
      then show ?thesis
        using part(2) that by (auto simp: cleanFiber_def)
    qed
    then show ?thesis
      using part' by blast
  qed
  show ?thesis
    using part below acquire cleanup by blast
qed

theorem pool_slots_partitioned_witness:
  "\<exists>st. loop_step (Connection 0) (initial_state (example_machine ''x'')) = Inr st \<and>
        leases st = [0] \<and> available_buffers st = {1..<POOL_COUNT} \<and>
        distinct (leases st) \<and>
        set (leases st) \<inter> available_buffers st = {} \<and>
        set (leases st) \<union> available_buffers st = {0..<POOL_COUNT}"
proof -
  define st0 where "st0 = initial_state (example_machine ''x'')"
  define d where "d = \<lparr>pool_start_ptr = 0, pool_ptr = fst (acquire_buffer (available_buffers st0)),
              clientfd = fst (sys_accept 0 (mach st0))\<rparr>"
  obtain M K where
    "serve \<lparr>self = heap_next st0, localData = d\<rparr> (snd (sys_accept 0 (mach st0))) = Yielded M K"
    using serve_yields by blast
  note step0 = loop_step_Connection [OF this d_def]
  define st1 where "st1 = st0\<lparr>mach := M,
      available_buffers := snd (acquire_buffer (available_buffers st0)),
      fibers := (fibers st0)(heap_next st0 \<mapsto> \<lparr>fo_data = d, fo_resume = K\<rparr>),
      heap_next := Suc (heap_next st0)\<rparr>"
  have step: "loop_step (Connection 0) st0 = Inr st1"
    using step0 by (simp only: st1_def)
  have acq: "acquire_buffer (available_buffers st0) = (Some 0, {1..<POOL_COUNT})"
    by (simp add: st0_def initial_available acquire_buffer_initial)
  have hn: "heap_next st0 = 0"
    by (simp add: st0_def initial_state_def)
  have l: "leases st1 = [0]"
    by (simp add: leases_def st1_def hn d_def acq map_filter_simps)
  have a: "available_buffers st1 = {1..<POOL_COUNT}"
    by (simp add: st1_def acq)
  have "reachable (example_machine ''x'') st0"
    unfolding st0_def by (rule reachable_init)
  then have "reachable (example_machine ''x'') st1"
    using step by (rule reachable_step)
  note T = pool_slots_partitioned [OF this]
  note p1 = T [THEN conjunct1]
    and p2 = T [THEN conjunct2, THEN conjunct1]
    and p3 = T [THEN conjunct2, THEN conjunct2, THEN conjunct1]
  show ?thesis
    unfolding st0_def [symmetric]
    by (rule exI [of _ st1]) (intro conjI step l a p1 p2 p3)
qed

text \<open>
  C10. When the free set is not empty at accept time, the slot given to the new
  connection is the least element of the free set, so it is determined by the free set
  alone; the set left is the free set without that slot.
\<close>

theorem acquired_slot_is_minimum:
  assumes "reachable m0 st" and "available_buffers st \<noteq> {}"
  shows "\<exists>st' fo. loop_step (Connection c) st = Inr st' \<and>
           fibers st' (heap_next st) = Some fo \<and>
           pool_ptr (fo_data fo) = Some (Min (available_buffers st)) \<and>
           Min (available_buffers st) \<in> available_buffers st \<and>
           (\<forall>q \<in> available_buffers st. Min (available_buffers st) \<le> q) \<and>
           available_buffers st' = available_buffers st - {Min (available_buffers st)}"
proof -
  have inv: "pool_inv st"
    using assms(1) by (rule reachable_pool_inv)
  have fin: "finite (available_buffers st)"
    using inv by (rule pool_inv_finite)
  have "Min (available_buffers st) \<in> available_buffers st"
    using fin assms(2) by simp
  moreover have "\<forall>q \<in> available_buffers st. Min (available_buffers st) \<le> q"
    using fin by simp
  ultimately show ?thesis
    using connection_step_acquires [OF inv assms(2), of c] by blast
qed

theorem acquired_slot_is_minimum_witness:
  "\<exists>st' fo. loop_step (Connection 0) (initial_state (example_machine ''x'')) = Inr st' \<and>
           fibers st' 0 = Some fo \<and> pool_ptr (fo_data fo) = Some 0 \<and>
           available_buffers st' = {0..<POOL_COUNT} - {0}"
proof -
  have ne: "available_buffers (initial_state (example_machine ''x'')) \<noteq> {}"
    by (simp add: initial_available POOL_COUNT_def)
  have hn: "heap_next (initial_state (example_machine ''x'')) = 0"
    by (simp add: initial_state_def)
  show ?thesis
    using acquired_slot_is_minimum [OF reachable_init ne, of 0]
    by (simp only: hn initial_available Min_pool) blast
qed

text \<open>
  C5. The event loop can reach a state with an empty free set. There the next
  connection is accepted at once: the acquisition yields none, the set stays
  empty and the fiber of the connection runs \<^verbatim>\<open>serve\<close> with a null pool pointer. That
  fiber reads the request into the array \<^verbatim>\<open>buffer\<close> of line 155, whose life ends at line
  158, and parses the dangling view at lines 161--163: the request it serves is what the
  dead storage holds, not what the client sent. Here the storage holds \<open>GET\<close>, a space and
  NUL bytes: the client asks for the existing file \<open>/f\<close> and receives the 404 response,
  where a fiber with a pool slot sends the 200 header and the five bytes of the file.
\<close>

theorem exhausted_pool_connection_parses_dead_buffer:
  "(\<exists>st st' fo ops m'.
      reachable (example_machine ''GET /f HTTP/1.1'') st \<and>
      available_buffers st = {} \<and>
      loop_step (Connection 0) st = Inr st' \<and>
      fibers st' (heap_next st) = Some fo \<and>
      pool_ptr (fo_data fo) = None \<and>
      available_buffers st' = {} \<and>
      run (heap_next st) (Yielded (mach st') (fo_resume fo)) = (ops, Finished m') \<and>
      sock_tx m' 0 =
        ''HTTP/1.1 404 Not Found'' @ [CHR 0x0D, CHR 0x0A] @ ''Content-Length: 0'' @
        [CHR 0x0D, CHR 0x0A, CHR 0x0D, CHR 0x0A]) \<and>
   (\<exists>ops m'.
      run 7 (serve (example_fiber (Some 3)) (example_machine ''GET /f HTTP/1.1'')) =
        (ops, Finished m') \<and>
      sock_tx m' 0 =
        ''HTTP/1.1 200 OK'' @ [CHR 0x0D, CHR 0x0A] @ ''Content-type: text/plain'' @
        [CHR 0x0D, CHR 0x0A] @ ''Content-Length: 5'' @
        [CHR 0x0D, CHR 0x0A, CHR 0x0D, CHR 0x0A] @ ''hello'')"
proof -
  let ?chunk = "''GET /f HTTP/1.1''"
  let ?m0 = "example_machine ?chunk"
  obtain st where reach: "reachable ?m0 st" and empty: "available_buffers st = {}"
    and quiet: "sock_rx (mach st) = sock_rx ?m0" "sock_tx (mach st) = sock_tx ?m0"
      "filesystem (mach st) = filesystem ?m0" "dead_bytes (mach st) = dead_bytes ?m0"
    and tags: "\<forall>q \<in> set (inflight (mach st)). sqe_user_data q < heap_next st"
    using quiet_pool_exhaustion [OF reachable_init _ _ _ _ _ refl, of ?m0]
    by (auto simp: initial_state_def)
  define m1 where "m1 = snd (sys_accept 0 (mach st))"
  obtain st' fo where step: "loop_step (Connection 0) st = Inr st'"
    and fo: "fibers st' (heap_next st) = Some fo"
    and d: "fo_data fo = \<lparr>pool_start_ptr = 0, pool_ptr = fst (acquire_buffer (available_buffers st)),
              clientfd = fst (sys_accept 0 (mach st))\<rparr>"
    and susp: "Yielded (mach st') (fo_resume fo) =
        serve \<lparr>self = heap_next st, localData = fo_data fo\<rparr> m1"
    and avail: "available_buffers st' = snd (acquire_buffer (available_buffers st))"
    using connection_step_quiet [OF tags, of 0] unfolding m1_def by blast
  define fu where "fu = \<lparr>self = heap_next st, localData = fo_data fo\<rparr>"
  have null: "pool_ptr (fo_data fo) = None"
    by (simp add: d empty acquire_buffer_empty)
  have still: "available_buffers st' = {}"
    by (simp add: avail empty acquire_buffer_empty)
  have fu: "self fu = heap_next st" "pool_ptr (localData fu) = None"
    "clientfd (localData fu) = fresh_fd (fdtab (mach st))"
    by (simp_all add: fu_def null) (simp add: d sys_accept_def Let_def)
  have m1: "sock_rx m1 = sock_rx ?m0" "sock_tx m1 = sock_tx ?m0"
    "filesystem m1 = example_fs" "dead_bytes m1 = dead_bytes ?m0"
    "inflight m1 = inflight (mach st)"
    "fdtab m1 = (fresh_fd (fdtab (mach st)), Socket_desc 0) # fdtab (mach st)"
    by (simp_all add: m1_def sys_accept_def Let_def quiet)
  have idle: "take_pending (self fu) (inflight m1) = None"
    using tags by (intro take_pending_None) (auto simp: fu(1) m1(5))
  have sock: "map_of (fdtab m1) (clientfd (localData fu)) = Some (Socket_desc 0)"
    by (simp add: m1(6) fu(3))
  have rx: "sock_rx m1 0 = ?chunk # []"
    by (simp add: m1(1))
  define z where "z = [CHR 0x00, CHR 0x00, CHR 0x00, CHR 0x00, CHR 0x00, CHR 0x00, CHR 0x00,
      CHR 0x00, CHR 0x00, CHR 0x00, CHR 0x00]"
  have z: "set z \<subseteq> {CHR 0x00}" "length z = 11"
    by (auto simp: z_def)
  define view where "view = ''GET '' @ z"
  have view:
    "take (min (nat BUF_SIZE) (length ?chunk)) (dead_bytes m1 (self fu) ''buffer'') = view"
    by (simp add: view_def z_def m1(4) BUF_SIZE_def)
  obtain m2 where
    first: "run (self fu) (serve fu m1) =
        prepend [first_read fu] (run (self fu) (serve_request fu view m2))"
    and m2: "fdtab m2 = fdtab m1" "inflight m2 = inflight m1" "filesystem m2 = filesystem m1"
      "sock_tx m2 = sock_tx m1"
    using run_serve_unpooled [OF idle sock rx _ fu(2)] unfolding view by auto
  have "takeWhile (\<lambda>x. x \<noteq> CHR '' '') z = z"
    using z(1) by (auto simp: takeWhile_eq_all_conv)
  then have target: "request_target view = z"
    by (simp add: request_target_def view_def)
  have get: "take 3 view = ''GET''" "4 \<le> length view" "length view \<le> nat BUF_SIZE"
    by (simp_all add: view_def z(2) BUF_SIZE_def)
  have req: "serve_request fu view m2 = http_send_file fu z m2"
    using serve_request_GET [OF get] by (simp add: target)
  have cstr: "c_str z = []"
    by (simp add: c_str_def z_def)
  have nofile: "filesystem m2 (c_str z) = None \<or> filesystem m2 (c_str z) = Some Other_inode"
    by (simp add: cstr m2(3) m1(3) example_fs_def)
  have idle2: "take_pending (self fu) (inflight m2) = None"
    and sock2: "map_of (fdtab m2) (clientfd (localData fu)) = Some (Socket_desc 0)"
    using idle sock by (simp_all add: m2)
  obtain m' where
    send: "run (self fu) (http_send_file fu z m2) =
        ([prep_op WRITEV fu (clientfd (localData fu)) (to_iov_sv http_404_hdr) 0], Finished m')"
    and tx: "sock_tx m' 0 = sock_tx m2 0 @ http_404_hdr"
    using run_http_send_file_404 [OF idle2 sock2 nofile] by blast
  have run: "run (heap_next st) (Yielded (mach st') (fo_resume fo)) =
      (first_read fu # [prep_op WRITEV fu (clientfd (localData fu)) (to_iov_sv http_404_hdr) 0],
       Finished m')"
  proof -
    have "run (self fu) (serve fu m1) =
        (first_read fu # [prep_op WRITEV fu (clientfd (localData fu)) (to_iov_sv http_404_hdr) 0],
         Finished m')"
      by (simp add: first req send prepend_def)
    then have "run (heap_next st) (serve fu m1) =
        (first_read fu # [prep_op WRITEV fu (clientfd (localData fu)) (to_iov_sv http_404_hdr) 0],
         Finished m')"
      by (simp only: fu(1))
    then show ?thesis
      by (simp only: susp fu_def)
  qed
  have tx': "sock_tx m' 0 =
        ''HTTP/1.1 404 Not Found'' @ [CHR 0x0D, CHR 0x0A] @ ''Content-Length: 0'' @
        [CHR 0x0D, CHR 0x0A, CHR 0x0D, CHR 0x0A]"
    by (simp add: tx m2(4) m1(2) http_404_hdr_bytes)
  have a: "\<exists>st st' fo ops m'.
      reachable ?m0 st \<and> available_buffers st = {} \<and>
      loop_step (Connection 0) st = Inr st' \<and>
      fibers st' (heap_next st) = Some fo \<and> pool_ptr (fo_data fo) = None \<and>
      available_buffers st' = {} \<and>
      run (heap_next st) (Yielded (mach st') (fo_resume fo)) = (ops, Finished m') \<and>
      sock_tx m' 0 =
        ''HTTP/1.1 404 Not Found'' @ [CHR 0x0D, CHR 0x0A] @ ''Content-Length: 0'' @
        [CHR 0x0D, CHR 0x0A, CHR 0x0D, CHR 0x0A]"
    using reach empty step fo null still run tx' by blast
  have "request_target ?chunk = ''/f''"
    by (simp add: request_target_def)
  then have b: "\<exists>ops m'.
      run 7 (serve (example_fiber (Some 3)) ?m0) = (ops, Finished m') \<and>
      sock_tx m' 0 =
        ''HTTP/1.1 200 OK'' @ [CHR 0x0D, CHR 0x0A] @ ''Content-type: text/plain'' @
        [CHR 0x0D, CHR 0x0A] @ ''Content-Length: 5'' @
        [CHR 0x0D, CHR 0x0A, CHR 0x0D, CHR 0x0A] @ ''hello''"
    using run_serve_example_200 [of ?chunk 3] unfolding http_200_hdr_5
    by (auto simp: BUF_SIZE_def)
  show ?thesis
    using a b by (rule conjI)
qed

end
